theory Spec2Isabelle
  imports Main
begin

section \<open>Strings and character classes\<close>

text \<open>
  The component under study is \<^verbatim>\<open>frontend/src/components/LegalMultiAgentSystem.js\<close>.
  A JavaScript string is a sequence of UTF-16 code units. The model writes a string as
  \<^typ>\<open>string\<close> and so covers the texts whose code units are below 256. In that range
  the line terminators of the regular expression dialect are LF and CR, and white space
  (the class \<^verbatim>\<open>\s\<close> and what \<^verbatim>\<open>trim\<close> removes) is TAB, LF, VT, FF, CR, SP and NBSP.
\<close>

abbreviation NL :: char where
  "NL \<equiv> CHR 10"

abbreviation PIPE :: char where
  "PIPE \<equiv> CHR ''|''"

definition isLineTerminator :: "char \<Rightarrow> bool" where
  "isLineTerminator c = (c = CHR 10 \<or> c = CHR 13)"

definition isWhiteSpace :: "char \<Rightarrow> bool" where
  "isWhiteSpace c =
     (c = CHR 9 \<or> c = CHR 10 \<or> c = CHR 11 \<or> c = CHR 12 \<or> c = CHR 13 \<or> c = CHR 32 \<or> c = CHR 160)"

text \<open>The class \<^verbatim>\<open>\w\<close>: ASCII letters, digits and the underscore.\<close>

definition isWordChar :: "char \<Rightarrow> bool" where
  "isWordChar c =
     (let n = (of_char c :: nat)
      in (48 \<le> n \<and> n \<le> 57) \<or> (65 \<le> n \<and> n \<le> 90) \<or> n = 95 \<or> (97 \<le> n \<and> n \<le> 122))"

text \<open>
  Case folding of the \<^verbatim>\<open>i\<close> flag (without the \<^verbatim>\<open>u\<close> flag): a code unit is compared
  through its upper case, and a code unit from 128 on is never folded onto an ASCII one.
  Every pattern character under the flag is an ASCII capital, so only the folding of
  the ASCII small letters decides a comparison.
\<close>

definition canonicalize :: "char \<Rightarrow> char" where
  "canonicalize c =
     (let n = (of_char c :: nat) in if 97 \<le> n \<and> n \<le> 122 then char_of (n - 32) else c)"

text \<open>\<^verbatim>\<open>String.prototype.trim\<close>.\<close>

definition trim :: "string \<Rightarrow> string" where
  "trim s = rev (dropWhile isWhiteSpace (rev (dropWhile isWhiteSpace s)))"

text \<open>\<^verbatim>\<open>String.prototype.split\<close> with a one-character separator: never an empty list.\<close>

fun js_split :: "char \<Rightarrow> string \<Rightarrow> string list" where
  "js_split sep [] = [[]]"
| "js_split sep (c # cs) =
     (if c = sep then [] # js_split sep cs
      else (case js_split sep cs of [] \<Rightarrow> [[c]] | r # rs \<Rightarrow> (c # r) # rs))"

text \<open>
  \<^verbatim>\<open>String.prototype.replace\<close> with a string pattern: the first occurrence only. The two
  replacement texts of the source hold no dollar sign, so they are inserted as they are.
\<close>

fun js_replace :: "string \<Rightarrow> string \<Rightarrow> string \<Rightarrow> string" where
  "js_replace pat rep [] = (if pat = [] then rep else [])"
| "js_replace pat rep (c # cs) =
     (if take (length pat) (c # cs) = pat then rep @ drop (length pat) (c # cs)
      else c # js_replace pat rep cs)"

section \<open>Artifacts\<close>

datatype artifact_type = Code | Table | Document

record artifact =
  atype :: artifact_type
  language :: "string option"
  content :: string
  title :: string

text \<open>The two local variables of \<^verbatim>\<open>extractArtifacts\<close> that its passes update.\<close>

record extract_state =
  arts :: "artifact list"
  remainingContent :: string

record extraction =
  artifacts :: "artifact list"
  conversationalContent :: string

section \<open>The code pass\<close>

text \<open>
  \<^verbatim>\<open>/```(\w+)?\n([\s\S]*?)```/g\<close>. After the opening fence the greedy \<^verbatim>\<open>\w+\<close> takes the
  whole run of word characters: giving some back leaves a word character where the
  line feed must stand. The lazy body ends at the nearest closing fence.
\<close>

definition fence :: string where
  "fence = [CHR 0x60, CHR 0x60, CHR 0x60]"

record code_match =
  c_index :: nat
  c_all :: string
  c_lang :: "string option"
  c_inner :: string

fun lazy_until_fence :: "string \<Rightarrow> (string \<times> string) option" where
  "lazy_until_fence [] = None"
| "lazy_until_fence (c # cs) =
     (if take 3 (c # cs) = fence then Some ([], drop 3 (c # cs))
      else (case lazy_until_fence cs of
              None \<Rightarrow> None
            | Some (inner, rest) \<Rightarrow> Some (c # inner, rest)))"

definition codeBlockRegex_at :: "nat \<Rightarrow> string \<Rightarrow> (code_match \<times> string) option" where
  "codeBlockRegex_at i s =
     (if take 3 s \<noteq> fence then None
      else
        (let w = takeWhile isWordChar (drop 3 s)
         in (case dropWhile isWordChar (drop 3 s) of
               [] \<Rightarrow> None
             | c # body \<Rightarrow>
                 if c \<noteq> NL then None
                 else (case lazy_until_fence body of
                         None \<Rightarrow> None
                       | Some (inner, rest) \<Rightarrow>
                           Some (\<lparr>c_index = i,
                                  c_all = fence @ w @ [NL] @ inner @ fence,
                                  c_lang = (if w = [] then None else Some w),
                                  c_inner = inner\<rparr>, rest)))))"

text \<open>
  \<^verbatim>\<open>exec\<close> from \<^verbatim>\<open>lastIndex\<close>: the leftmost position where the expression matches. The
  string argument is the text from \<^verbatim>\<open>lastIndex\<close> on, the number is \<^verbatim>\<open>lastIndex\<close>; the
  result holds the match and the text after it.
\<close>

fun codeBlockRegex_exec :: "nat \<Rightarrow> string \<Rightarrow> (code_match \<times> string) option" where
  "codeBlockRegex_exec i [] = None"
| "codeBlockRegex_exec i (c # cs) =
     (case codeBlockRegex_at i (c # cs) of
        Some r \<Rightarrow> Some r
      | None \<Rightarrow> codeBlockRegex_exec (Suc i) cs)"

definition code_artifact :: "code_match \<Rightarrow> artifact" where
  "code_artifact m =
     \<lparr>atype = Code,
      language = Some (case c_lang m of None \<Rightarrow> ''text'' | Some l \<Rightarrow> l),
      content = trim (c_inner m),
      title = (case c_lang m of None \<Rightarrow> ''Code'' | Some l \<Rightarrow> l) @ '' Block''\<rparr>"

lemma lazy_until_fence_shorter:
  "lazy_until_fence s = Some (inner, rest) \<Longrightarrow> length rest < length s"
proof (induction s arbitrary: inner rest)
  case Nil
  then show ?case by simp
next
  case (Cons c cs)
  show ?case
  proof (cases "take 3 (c # cs) = fence")
    case True
    with Cons.prems show ?thesis by auto
  next
    case False
    with Cons.prems obtain inner' where "lazy_until_fence cs = Some (inner', rest)"
      by (auto split: option.splits)
    from Cons.IH [OF this] show ?thesis by simp
  qed
qed

lemma codeBlockRegex_at_shorter:
  "codeBlockRegex_at i s = Some (m, rest) \<Longrightarrow> length rest < length s"
proof -
  assume a: "codeBlockRegex_at i s = Some (m, rest)"
  then obtain c body inner where
    d: "dropWhile isWordChar (drop 3 s) = c # body" and
    l: "lazy_until_fence body = Some (inner, rest)"
    by (auto simp: codeBlockRegex_at_def Let_def split: if_splits list.splits option.splits)
  have "length (dropWhile isWordChar (drop 3 s)) \<le> length (drop 3 s)"
    by (rule length_dropWhile_le)
  with d have "length body < length s" by simp
  with lazy_until_fence_shorter [OF l] show ?thesis by simp
qed

lemma codeBlockRegex_exec_shorter:
  "codeBlockRegex_exec i s = Some (m, rest) \<Longrightarrow> length rest < length s"
proof (induction s arbitrary: i)
  case Nil
  then show ?case by simp
next
  case (Cons c cs)
  show ?case
  proof (cases "codeBlockRegex_at i (c # cs)")
    case None
    with Cons.prems have "codeBlockRegex_exec (Suc i) cs = Some (m, rest)" by simp
    from Cons.IH [OF this] show ?thesis by simp
  next
    case (Some r)
    with Cons.prems have "codeBlockRegex_at i (c # cs) = Some (m, rest)" by simp
    then show ?thesis by (rule codeBlockRegex_at_shorter)
  qed
qed

text \<open>
  The loop \<^verbatim>\<open>while ((match = codeBlockRegex.exec(content)) !== null)\<close>: the expression
  runs over \<^verbatim>\<open>content\<close>, the replacement is made in \<^verbatim>\<open>remainingContent\<close>.
\<close>

definition code_body :: "code_match \<Rightarrow> extract_state \<Rightarrow> extract_state" where
  "code_body m st =
     \<lparr>arts = arts st @ [code_artifact m],
      remainingContent = js_replace (c_all m) [] (remainingContent st)\<rparr>"

function code_pass :: "nat \<Rightarrow> string \<Rightarrow> extract_state \<Rightarrow> extract_state" where
  "code_pass i s st =
     (case codeBlockRegex_exec i s of
        None \<Rightarrow> st
      | Some (m, rest) \<Rightarrow> code_pass (c_index m + length (c_all m)) rest (code_body m st))"
  by pat_completeness auto

termination
  by (relation "measure (\<lambda>(i, s, st). length s)") (auto dest: codeBlockRegex_exec_shorter)

declare code_pass.simps [simp del]

text \<open>The matches that the loop visits, in order.\<close>

function code_matches :: "nat \<Rightarrow> string \<Rightarrow> code_match list" where
  "code_matches i s =
     (case codeBlockRegex_exec i s of
        None \<Rightarrow> []
      | Some (m, rest) \<Rightarrow> m # code_matches (c_index m + length (c_all m)) rest)"
  by pat_completeness auto

termination
  by (relation "measure (\<lambda>(i, s). length s)") (auto dest: codeBlockRegex_exec_shorter)

declare code_matches.simps [simp del]

section \<open>The table pass\<close>

text \<open>
  \<^verbatim>\<open>/(\|.*\|[\s\S]*?\n(?:\|.*\|[\s\S]*?\n)*)/g\<close>. One row \<^verbatim>\<open>\|.*\|[\s\S]*?\n\<close> starts at
  a pipe; the greedy \<^verbatim>\<open>.*\<close> runs to the next line terminator and gives back down to the
  last pipe before it; the lazy \<^verbatim>\<open>[\s\S]*?\<close> then runs to the nearest line feed. When
  no line feed follows the last pipe, none follows an earlier pipe of the same stretch
  either, so the row fails as a whole.
\<close>

record span_match =
  index :: nat
  matched :: string

definition after_last_pipe :: "string \<Rightarrow> nat" where
  "after_last_pipe line = length line - length (takeWhile (\<lambda>x. x \<noteq> PIPE) (rev line))"

definition table_row_at :: "string \<Rightarrow> (string \<times> string) option" where
  "table_row_at s =
     (case s of
        [] \<Rightarrow> None
      | c # r \<Rightarrow>
          if c \<noteq> PIPE then None
          else
            (let line = takeWhile (\<lambda>x. \<not> isLineTerminator x) r
             in if PIPE \<notin> set line then None
                else
                  (let k = after_last_pipe line;
                       tail = drop k r
                   in if NL \<notin> set tail then None
                      else Some (c # take k r @ takeWhile (\<lambda>x. x \<noteq> NL) tail @ [NL],
                                 drop 1 (dropWhile (\<lambda>x. x \<noteq> NL) tail)))))"

lemma table_row_at_shorter:
  "table_row_at s = Some (row, rest) \<Longrightarrow> length rest < length s"
proof -
  assume a: "table_row_at s = Some (row, rest)"
  then obtain c r k where s: "s = c # r"
    and rest: "rest = drop 1 (dropWhile (\<lambda>x. x \<noteq> NL) (drop k r))"
    by (auto simp: table_row_at_def Let_def split: list.splits if_splits)
  have "length (dropWhile (\<lambda>x. x \<noteq> NL) (drop k r)) \<le> length (drop k r)"
    by (rule length_dropWhile_le)
  with s rest show ?thesis by simp
qed

text \<open>
  The greedy group \<^verbatim>\<open>(?:\|.*\|[\s\S]*?\n)*\<close>: nothing follows it in the expression, so
  it takes rows for as long as one matches where the last one ended.
\<close>

function table_rows :: "string \<Rightarrow> string \<times> string" where
  "table_rows s =
     (case table_row_at s of
        None \<Rightarrow> ([], s)
      | Some (row, rest) \<Rightarrow> (case table_rows rest of (others, rest') \<Rightarrow> (row @ others, rest')))"
  by pat_completeness auto

termination
  by (relation "measure length") (auto dest: table_row_at_shorter)

declare table_rows.simps [simp del]

definition tableRegex_at :: "nat \<Rightarrow> string \<Rightarrow> (span_match \<times> string) option" where
  "tableRegex_at i s =
     (case table_row_at s of
        None \<Rightarrow> None
      | Some (row, rest) \<Rightarrow>
          (case table_rows rest of
             (others, rest') \<Rightarrow> Some (\<lparr>index = i, matched = row @ others\<rparr>, rest')))"

fun tableRegex_exec :: "nat \<Rightarrow> string \<Rightarrow> (span_match \<times> string) option" where
  "tableRegex_exec i [] = None"
| "tableRegex_exec i (c # cs) =
     (case tableRegex_at i (c # cs) of
        Some r \<Rightarrow> Some r
      | None \<Rightarrow> tableRegex_exec (Suc i) cs)"

lemma table_rows_shorter:
  "table_rows s = (others, rest) \<Longrightarrow> length rest \<le> length s"
proof (induction s arbitrary: others rest rule: table_rows.induct)
  case (1 s)
  show ?case
  proof (cases "table_row_at s")
    case None
    with "1.prems" show ?thesis by (simp add: table_rows.simps [of s])
  next
    case (Some p)
    obtain row r where p: "p = (row, r)" by (cases p)
    obtain others' rest' where t: "table_rows r = (others', rest')" by (cases "table_rows r")
    from "1.prems" Some p t have "rest = rest'" by (simp add: table_rows.simps [of s])
    moreover from "1.IH" [OF Some p [symmetric] t] have "length rest' \<le> length r" .
    moreover from table_row_at_shorter Some p have "length r < length s" by simp
    ultimately show ?thesis by simp
  qed
qed

lemma tableRegex_at_shorter:
  "tableRegex_at i s = Some (m, rest) \<Longrightarrow> length rest < length s"
proof -
  assume a: "tableRegex_at i s = Some (m, rest)"
  then obtain row r others where r: "table_row_at s = Some (row, r)"
    and t: "table_rows r = (others, rest)"
    by (auto simp: tableRegex_at_def split: option.splits prod.splits)
  from table_row_at_shorter [OF r] table_rows_shorter [OF t] show ?thesis by simp
qed

lemma tableRegex_exec_shorter:
  "tableRegex_exec i s = Some (m, rest) \<Longrightarrow> length rest < length s"
proof (induction s arbitrary: i)
  case Nil
  then show ?case by simp
next
  case (Cons c cs)
  show ?case
  proof (cases "tableRegex_at i (c # cs)")
    case None
    with Cons.prems have "tableRegex_exec (Suc i) cs = Some (m, rest)" by simp
    from Cons.IH [OF this] show ?thesis by simp
  next
    case (Some r)
    with Cons.prems have "tableRegex_at i (c # cs) = Some (m, rest)" by simp
    then show ?thesis by (rule tableRegex_at_shorter)
  qed
qed

definition table_artifact :: "string \<Rightarrow> artifact" where
  "table_artifact tableContent =
     \<lparr>atype = Table, language = None, content = tableContent, title = ''Data Table''\<rparr>"

text \<open>The rows of the test \<^verbatim>\<open>rows.length >= 2\<close>: the lines that are not blank.\<close>

definition nonblank_rows :: "string \<Rightarrow> string list" where
  "nonblank_rows s = filter (\<lambda>row. trim row \<noteq> []) (js_split NL s)"

definition table_body :: "span_match \<Rightarrow> extract_state \<Rightarrow> extract_state" where
  "table_body m st =
     (let tableContent = trim (matched m);
          rows = nonblank_rows tableContent
      in if 2 \<le> length rows
         then \<lparr>arts = arts st @ [table_artifact tableContent],
               remainingContent =
                 js_replace (matched m) ''[Table shown in artifact]'' (remainingContent st)\<rparr>
         else st)"

function table_pass :: "nat \<Rightarrow> string \<Rightarrow> extract_state \<Rightarrow> extract_state" where
  "table_pass i s st =
     (case tableRegex_exec i s of
        None \<Rightarrow> st
      | Some (m, rest) \<Rightarrow> table_pass (index m + length (matched m)) rest (table_body m st))"
  by pat_completeness auto

termination
  by (relation "measure (\<lambda>(i, s, st). length s)") (auto dest: tableRegex_exec_shorter)

declare table_pass.simps [simp del]

function table_matches :: "nat \<Rightarrow> string \<Rightarrow> span_match list" where
  "table_matches i s =
     (case tableRegex_exec i s of
        None \<Rightarrow> []
      | Some (m, rest) \<Rightarrow> m # table_matches (index m + length (matched m)) rest)"
  by pat_completeness auto

termination
  by (relation "measure (\<lambda>(i, s). length s)") (auto dest: tableRegex_exec_shorter)

declare table_matches.simps [simp del]

text \<open>The test of the loop body: at least two rows that are not blank.\<close>

definition qualifies :: "span_match \<Rightarrow> bool" where
  "qualifies m = (2 \<le> length (nonblank_rows (trim (matched m))))"

section \<open>The document pass\<close>

text \<open>
  \<^verbatim>\<open>/((?:CONTRACT|AGREEMENT|MEMO|POLICY|PROCEDURE|DOCUMENT)[\s\S]{200,})/i\<close>, without the
  \<^verbatim>\<open>g\<close> flag and run once: the leftmost position where a keyword stands, in either
  case, with at least 200 code units after it; the greedy tail takes the rest of the text.
\<close>

definition doc_keywords :: "string list" where
  "doc_keywords =
     [''CONTRACT'', ''AGREEMENT'', ''MEMO'', ''POLICY'', ''PROCEDURE'', ''DOCUMENT'']"

definition keyword_at :: "string \<Rightarrow> string \<Rightarrow> bool" where
  "keyword_at k s = (map canonicalize (take (length k) s) = map canonicalize k)"

definition docRegex_at :: "string \<Rightarrow> bool" where
  "docRegex_at s = list_ex (\<lambda>k. keyword_at k s \<and> length k + 200 \<le> length s) doc_keywords"

fun docRegex_exec :: "nat \<Rightarrow> string \<Rightarrow> span_match option" where
  "docRegex_exec i [] = None"
| "docRegex_exec i (c # cs) =
     (if docRegex_at (c # cs) then Some \<lparr>index = i, matched = c # cs\<rparr>
      else docRegex_exec (Suc i) cs)"

definition document_artifact :: "string \<Rightarrow> artifact" where
  "document_artifact text =
     \<lparr>atype = Document, language = None, content = text, title = ''Legal Document''\<rparr>"

definition doc_pass :: "string \<Rightarrow> extract_state \<Rightarrow> extract_state" where
  "doc_pass s st =
     (case docRegex_exec 0 s of
        None \<Rightarrow> st
      | Some m \<Rightarrow>
          \<lparr>arts = arts st @ [document_artifact (matched m)],
           remainingContent =
             js_replace (matched m) ''[Document shown in artifact]'' (remainingContent st)\<rparr>)"

section \<open>Cleaning the remaining text\<close>

text \<open>\<^verbatim>\<open>.replace(/\n{3,}/g, '\n\n')\<close>: every run of three or more line feeds becomes two.\<close>

function collapse_newlines :: "string \<Rightarrow> string" where
  "collapse_newlines s =
     (let n = length (takeWhile (\<lambda>x. x = NL) s)
      in if 3 \<le> n then [NL, NL] @ collapse_newlines (drop n s)
         else (case s of [] \<Rightarrow> [] | c # cs \<Rightarrow> c # collapse_newlines cs))"
  by pat_completeness auto

termination
proof (relation "measure length")
  show "wf (measure length)" by simp
next
  fix s :: string and n :: nat
  assume n: "n = length (takeWhile (\<lambda>x. x = NL) s)" and "3 \<le> n"
  moreover have "length (takeWhile (\<lambda>x. x = NL) s) \<le> length s"
    by (rule length_takeWhile_le)
  ultimately show "(drop n s, s) \<in> measure length" by simp
next
  fix s :: string and n :: nat and c :: char and cs :: string
  assume "s = c # cs"
  then show "(cs, s) \<in> measure length" by simp
qed

declare collapse_newlines.simps [simp del]

text \<open>
  \<^verbatim>\<open>.replace(/^\s*\[.*?\]\s*$/gm, '')\<close>. Under the \<^verbatim>\<open>m\<close> flag \<^verbatim>\<open>^\<close> holds at the start of
  the text and after a line terminator, \<^verbatim>\<open>$\<close> at the end of the text and before a line
  terminator. The tail \<^verbatim>\<open>\s*$\<close> takes the whole run of white space and gives back to the
  last position where \<^verbatim>\<open>$\<close> holds: the end of the text, or else the last line terminator
  of the run.
\<close>

definition ws_then_eol :: "string \<Rightarrow> (string \<times> string) option" where
  "ws_then_eol s =
     (let w = takeWhile isWhiteSpace s
      in if dropWhile isWhiteSpace s = [] then Some (w, [])
         else if list_ex isLineTerminator w
         then (let k = length w - length (takeWhile (\<lambda>x. \<not> isLineTerminator x) (rev w)) - 1
               in Some (take k s, drop k s))
         else None)"

text \<open>
  \<^verbatim>\<open>.*?\]\s*$\<close> after the opening bracket: the lazy \<^verbatim>\<open>.*?\<close> stops at the first closing
  bracket after which the tail matches, and never crosses a line terminator.
\<close>

fun lazy_until_bracket :: "string \<Rightarrow> (string \<times> string) option" where
  "lazy_until_bracket [] = None"
| "lazy_until_bracket (c # cs) =
     (case (if c = CHR '']'' then ws_then_eol cs else None) of
        Some (w, rest) \<Rightarrow> Some (c # w, rest)
      | None \<Rightarrow>
          if isLineTerminator c then None
          else (case lazy_until_bracket cs of
                  None \<Rightarrow> None
                | Some (m, rest) \<Rightarrow> Some (c # m, rest)))"

text \<open>The expression at a position where \<^verbatim>\<open>^\<close> holds: the match and the text after it.\<close>

definition placeholderRegex_at :: "string \<Rightarrow> (string \<times> string) option" where
  "placeholderRegex_at s =
     (case dropWhile isWhiteSpace s of
        [] \<Rightarrow> None
      | c # cs \<Rightarrow>
          if c \<noteq> CHR ''['' then None
          else (case lazy_until_bracket cs of
                  None \<Rightarrow> None
                | Some (m, rest) \<Rightarrow> Some (takeWhile isWhiteSpace s @ c # m, rest)))"

lemma ws_then_eol_shorter:
  "ws_then_eol s = Some (w, rest) \<Longrightarrow> length rest \<le> length s"
  by (auto simp: ws_then_eol_def Let_def split: if_splits)

lemma lazy_until_bracket_shorter:
  "lazy_until_bracket s = Some (m, rest) \<Longrightarrow> length rest < length s"
proof (induction s arbitrary: m rest)
  case Nil
  then show ?case by simp
next
  case (Cons c cs)
  show ?case
  proof (cases "if c = CHR '']'' then ws_then_eol cs else None")
    case (Some p)
    obtain w r where p: "p = (w, r)" by (cases p)
    from Some p have "ws_then_eol cs = Some (w, r)" by (simp split: if_splits)
    from ws_then_eol_shorter [OF this] have "length r \<le> length cs" .
    moreover from Cons.prems Some p have "rest = r" by simp
    ultimately show ?thesis by simp
  next
    case None
    with Cons.prems obtain m' where "lazy_until_bracket cs = Some (m', rest)"
      by (auto split: if_splits option.splits)
    from Cons.IH [OF this] show ?thesis by simp
  qed
qed

lemma placeholderRegex_at_shorter:
  "placeholderRegex_at s = Some (m, rest) \<Longrightarrow> length rest < length s"
proof -
  assume "placeholderRegex_at s = Some (m, rest)"
  then obtain c cs m' where d: "dropWhile isWhiteSpace s = c # cs"
    and l: "lazy_until_bracket cs = Some (m', rest)"
    by (auto simp: placeholderRegex_at_def split: list.splits if_splits option.splits)
  have "length (dropWhile isWhiteSpace s) \<le> length s" by (rule length_dropWhile_le)
  with d have "length cs < length s" by simp
  with lazy_until_bracket_shorter [OF l] show ?thesis by simp
qed

text \<open>
  The global replacement by the empty text. The flag says whether \<^verbatim>\<open>^\<close> holds at the
  start of the string argument: at the start of the text, and after a line terminator.
\<close>

function strip_placeholders :: "bool \<Rightarrow> string \<Rightarrow> string" where
  "strip_placeholders bol s =
     (case (if bol then placeholderRegex_at s else None) of
        Some (m, rest) \<Rightarrow> strip_placeholders (isLineTerminator (last m)) rest
      | None \<Rightarrow>
          (case s of
             [] \<Rightarrow> []
           | c # cs \<Rightarrow> c # strip_placeholders (isLineTerminator c) cs))"
  by pat_completeness auto

termination
  by (relation "measure (\<lambda>(bol, s). length s)")
     (auto dest: placeholderRegex_at_shorter split: if_splits)

declare strip_placeholders.simps [simp del]

section \<open>extractArtifacts\<close>

definition fallback :: "artifact list \<Rightarrow> string \<Rightarrow> string" where
  "fallback as remaining =
     (if remaining = [] \<and> 0 < length as
      then (if list_ex (\<lambda>a. atype a = Table) as
            then ''I've created a table with the requested information.''
            else if list_ex (\<lambda>a. atype a = Code) as
            then ''I've created the code for you.''
            else if list_ex (\<lambda>a. atype a = Document) as
            then ''I've prepared the document as requested.''
            else remaining)
      else remaining)"

definition cleanup :: "string \<Rightarrow> string" where
  "cleanup s = trim (strip_placeholders True (collapse_newlines s))"

definition extractArtifacts :: "string \<Rightarrow> extraction" where
  "extractArtifacts text =
     (let st0 = \<lparr>arts = [], remainingContent = text\<rparr>;
          st1 = code_pass 0 text st0;
          st2 = table_pass 0 text st1;
          st3 = doc_pass text st2;
          remaining = cleanup (remainingContent st3)
      in \<lparr>artifacts = arts st3, conversationalContent = fallback (arts st3) remaining\<rparr>)"

section \<open>parseMarkdownTable\<close>

text \<open>
  \<^verbatim>\<open>row.split('|').map(cell => cell.trim()).filter(cell => cell)\<close>: an empty string is
  falsy, so the filter keeps the cells that are not empty after trimming.
\<close>

definition row_cells :: "string \<Rightarrow> string list" where
  "row_cells row = filter (\<lambda>cell. cell \<noteq> []) (map trim (js_split PIPE row))"

record parsed_table =
  headers :: "string list"
  data :: "string list list"

text \<open>
  The locals \<^verbatim>\<open>headers\<close> and \<^verbatim>\<open>data\<close> of \<^verbatim>\<open>parseMarkdownTable\<close>; \<open>None\<close> on the two
  paths that return the content as it came.
\<close>

definition table_parts :: "string \<Rightarrow> parsed_table option" where
  "table_parts tableContent =
     (let rows = nonblank_rows (trim tableContent)
      in if length rows < 2 then None
         else
           (let headerRow = rows ! 0;
                separatorRow = rows ! 1;
                dataRows = drop 2 rows
            in if PIPE \<notin> set headerRow \<or> CHR ''-'' \<notin> set separatorRow then None
               else Some \<lparr>headers = row_cells headerRow, data = map row_cells dataRows\<rparr>))"

definition render_table :: "parsed_table \<Rightarrow> string" where
  \<open>render_table t =
     ''<div class="artifact-table-container"><table class="artifact-table">''
     @ ''<thead><tr>''
     @ concat (map (\<lambda>header. ''<th>'' @ header @ ''</th>'') (headers t))
     @ ''</tr></thead>''
     @ ''<tbody>''
     @ concat (map (\<lambda>row. ''<tr>'' @ concat (map (\<lambda>cell. ''<td>'' @ cell @ ''</td>'') row)
                                 @ ''</tr>'') (data t))
     @ ''</tbody></table></div>''\<close>

definition parseMarkdownTable :: "string \<Rightarrow> string" where
  "parseMarkdownTable tableContent =
     (case table_parts tableContent of
        None \<Rightarrow> tableContent
      | Some t \<Rightarrow> render_table t)"

section \<open>The message list and ws.onmessage\<close>

text \<open>
  A message object. A property that an object literal of the source leaves out reads as
  \<^verbatim>\<open>undefined\<close>: \<open>None\<close> for the optional fields, \<open>False\<close> for the flags, which the
  source only tests for truth.
\<close>

record message =
  msg_id :: nat
  msg_content :: string
  msg_conversationalContent :: "string option"
  msg_artifacts :: "artifact list option"
  isBot :: bool
  agent :: "string option"
  timestamp :: string
  isStreaming :: bool
  hasArtifact :: bool
  thinking :: "string option"
  isError :: bool

text \<open>The parsed event \<^verbatim>\<open>data\<close>, with the fields the handler reads.\<close>

record ws_event =
  ev_content :: "string option"
  ev_thinking :: "string option"
  ev_agent :: "string option"
  ev_timestamp :: "string option"
  ev_done :: bool
  ev_error :: "string option"

text \<open>What \<^verbatim>\<open>Date.now()\<close> and \<^verbatim>\<open>new Date().toISOString()\<close> return when the handler runs.\<close>

record clock =
  now :: nat
  nowISO :: string

record ui_state =
  messages :: "message list"
  isLoading :: bool

text \<open>
  The value of a string field when it is truthy: an absent or empty string is falsy.
\<close>

definition truthy :: "string option \<Rightarrow> string option" where
  "truthy v = (case v of None \<Rightarrow> None | Some s \<Rightarrow> if s = [] then None else Some s)"

definition error_message :: "clock \<Rightarrow> string \<Rightarrow> message" where
  "error_message clk err =
     \<lparr>msg_id = now clk,
      msg_content = ''Error: '' @ err,
      msg_conversationalContent = None,
      msg_artifacts = None,
      isBot = True,
      agent = Some ''System'',
      timestamp = nowISO clk,
      isStreaming = False,
      hasArtifact = False,
      thinking = None,
      isError = True\<rparr>"

definition append_fragment :: "clock \<Rightarrow> ws_event \<Rightarrow> string \<Rightarrow> message list \<Rightarrow> message list" where
  "append_fragment clk ev fragment prev =
     (if prev \<noteq> [] \<and> isBot (last prev) \<and> isStreaming (last prev)
      then
        (let lastMessage = last prev;
             updatedContent = msg_content lastMessage @ fragment;
             ex = extractArtifacts updatedContent
         in butlast prev @
            [lastMessage\<lparr>msg_content := updatedContent,
                          msg_conversationalContent := Some (conversationalContent ex),
                          msg_artifacts := Some (artifacts ex),
                          hasArtifact := 0 < length (artifacts ex),
                          thinking := (case truthy (ev_thinking ev) of
                                         Some t \<Rightarrow> Some t
                                       | None \<Rightarrow> thinking lastMessage)\<rparr>])
      else
        (let ex = extractArtifacts fragment
         in prev @
            [\<lparr>msg_id = now clk,
              msg_content = fragment,
              msg_conversationalContent = Some (conversationalContent ex),
              msg_artifacts = Some (artifacts ex),
              isBot = True,
              agent = Some (case truthy (ev_agent ev) of
                             Some a \<Rightarrow> a
                           | None \<Rightarrow> ''Legal Assistant''),
              timestamp = (case truthy (ev_timestamp ev) of
                             Some t \<Rightarrow> t
                           | None \<Rightarrow> nowISO clk),
              isStreaming = True,
              hasArtifact = 0 < length (artifacts ex),
              thinking = ev_thinking ev,
              isError = False\<rparr>]))"

definition onmessage :: "clock \<Rightarrow> ws_event \<Rightarrow> ui_state \<Rightarrow> ui_state" where
  "onmessage clk ev st =
     (if ev_done ev then st\<lparr>isLoading := False\<rparr>
      else
        (case truthy (ev_error ev) of
           Some err \<Rightarrow>
             \<lparr>messages = messages st @ [error_message clk err], isLoading = False\<rparr>
         | None \<Rightarrow>
             (case truthy (ev_content ev) of
                Some fragment \<Rightarrow>
                  st\<lparr>messages := append_fragment clk ev fragment (messages st)\<rparr>
              | None \<Rightarrow> st)))"

text \<open>A fragment event: only \<^verbatim>\<open>content\<close> is set.\<close>

definition fragment_event :: "string \<Rightarrow> ws_event" where
  "fragment_event fragment =
     \<lparr>ev_content = Some fragment, ev_thinking = None, ev_agent = None, ev_timestamp = None,
      ev_done = False, ev_error = None\<rparr>"

section \<open>Occurrences of a keyword\<close>

text \<open>
  A keyword of the list stands at position \<open>i\<close> of the text, in either case, and at
  least 200 code units follow it.
\<close>

definition keyword_occurs :: "string list \<Rightarrow> string \<Rightarrow> nat \<Rightarrow> bool" where
  "keyword_occurs ks s i =
     list_ex (\<lambda>k. map canonicalize (take (length k) (drop i s)) = map canonicalize k
                 \<and> i + length k + 200 \<le> length s) ks"

text \<open>The keyword set as the specification words it: five keywords.\<close>

definition spec_doc_keywords :: "string list" where
  "spec_doc_keywords = [''CONTRACT'', ''AGREEMENT'', ''MEMO'', ''POLICY'', ''PROCEDURE'']"

section \<open>Lines of a table, for the statements on the table pass\<close>

text \<open>
  A line that the table expression takes as a row from its first character: it holds no
  line feed, starts with a pipe, and holds a second pipe before any other line
  terminator (a carriage return may follow the last pipe, as in a line ended by CR LF).
\<close>

definition table_line :: "string \<Rightarrow> bool" where
  "table_line row =
     (case row of
        [] \<Rightarrow> False
      | c # body \<Rightarrow>
          c = PIPE \<and> NL \<notin> set body
          \<and> PIPE \<in> set (takeWhile (\<lambda>x. \<not> isLineTerminator x) body))"

text \<open>The text made of the given lines, each ended by a line feed.\<close>

definition lines_text :: "string list \<Rightarrow> string" where
  "lines_text rows = concat (map (\<lambda>row. row @ [NL]) rows)"

section \<open>The passes as folds over the matches\<close>

lemma code_pass_foldl:
  "code_pass i s st = foldl (\<lambda>st m. code_body m st) st (code_matches i s)"
proof (induction i s st rule: code_pass.induct)
  case (1 i s st)
  show ?case
  proof (cases "codeBlockRegex_exec i s")
    case None
    then show ?thesis by (simp add: code_pass.simps [of i s] code_matches.simps [of i s])
  next
    case (Some p)
    obtain m rest where p: "p = (m, rest)" by (cases p)
    from "1.IH" [OF Some [unfolded p] refl] Some p show ?thesis
      by (simp add: code_pass.simps [of i s] code_matches.simps [of i s])
  qed
qed

lemma code_body_foldl_arts:
  "arts (foldl (\<lambda>st m. code_body m st) st ms) = arts st @ map code_artifact ms"
  by (induction ms arbitrary: st) (simp_all add: code_body_def)

lemma code_pass_arts:
  "arts (code_pass i s st) = arts st @ map code_artifact (code_matches i s)"
  by (simp add: code_pass_foldl code_body_foldl_arts)

lemma table_pass_foldl:
  "table_pass i s st = foldl (\<lambda>st m. table_body m st) st (table_matches i s)"
proof (induction i s st rule: table_pass.induct)
  case (1 i s st)
  show ?case
  proof (cases "tableRegex_exec i s")
    case None
    then show ?thesis by (simp add: table_pass.simps [of i s] table_matches.simps [of i s])
  next
    case (Some p)
    obtain m rest where p: "p = (m, rest)" by (cases p)
    from "1.IH" [OF Some [unfolded p] refl] Some p show ?thesis
      by (simp add: table_pass.simps [of i s] table_matches.simps [of i s])
  qed
qed

lemma table_body_foldl_arts:
  "arts (foldl (\<lambda>st m. table_body m st) st ms) =
     arts st @ map (\<lambda>m. table_artifact (trim (matched m))) (filter qualifies ms)"
  by (induction ms arbitrary: st) (simp_all add: table_body_def qualifies_def Let_def)

lemma table_pass_arts:
  "arts (table_pass i s st) =
     arts st @ map (\<lambda>m. table_artifact (trim (matched m))) (filter qualifies (table_matches i s))"
  by (simp add: table_pass_foldl table_body_foldl_arts)

lemma doc_pass_arts:
  "arts (doc_pass s st) =
     arts st @ (case docRegex_exec 0 s of None \<Rightarrow> [] | Some m \<Rightarrow> [document_artifact (matched m)])"
  by (simp add: doc_pass_def split: option.splits)

lemma extractArtifacts_artifacts:
  "artifacts (extractArtifacts text) =
     map code_artifact (code_matches 0 text)
     @ map (\<lambda>m. table_artifact (trim (matched m))) (filter qualifies (table_matches 0 text))
     @ (case docRegex_exec 0 text of None \<Rightarrow> [] | Some m \<Rightarrow> [document_artifact (matched m)])"
  by (simp add: extractArtifacts_def Let_def doc_pass_arts table_pass_arts code_pass_arts)

section \<open>Evaluation on a given text\<close>

text \<open>The equations that compute the extractor on a text written out in full.\<close>

lemmas eval_simps =
  extractArtifacts_def Let_def code_pass.simps table_pass.simps doc_pass_def
  code_body_def table_body_def codeBlockRegex_at_def fence_def
  isWordChar_def isWhiteSpace_def isLineTerminator_def canonicalize_def
  trim_def code_artifact_def table_artifact_def document_artifact_def
  table_row_at_def table_rows.simps tableRegex_at_def after_last_pipe_def
  nonblank_rows_def docRegex_at_def keyword_at_def doc_keywords_def
  collapse_newlines.simps strip_placeholders.simps placeholderRegex_at_def ws_then_eol_def
  cleanup_def fallback_def code_matches.simps table_matches.simps qualifies_def

section \<open>The cells of a row\<close>

lemma trim_hd: "trim s \<noteq> [] \<Longrightarrow> \<not> isWhiteSpace (hd (trim s))"
proof -
  assume n: "trim s \<noteq> []"
  define d where "d = dropWhile isWhiteSpace s"
  define e where "e = dropWhile isWhiteSpace (rev d)"
  from n have e: "e \<noteq> []" by (simp add: trim_def d_def e_def)
  then have "rev d \<noteq> []" by (auto simp: e_def)
  then have d: "d \<noteq> []" by simp
  have "last e = last (rev d)"
    using e by (metis e_def takeWhile_dropWhile_id last_appendR)
  also have "\<dots> = hd d" using d by (simp add: last_rev)
  finally have "hd (rev e) = hd d" using e by (simp add: hd_rev)
  moreover have "\<not> isWhiteSpace (hd d)" using d unfolding d_def by (rule hd_dropWhile)
  ultimately show ?thesis by (simp add: trim_def d_def e_def)
qed

lemma trim_last: "trim s \<noteq> [] \<Longrightarrow> \<not> isWhiteSpace (last (trim s))"
proof -
  assume n: "trim s \<noteq> []"
  define e where "e = dropWhile isWhiteSpace (rev (dropWhile isWhiteSpace s))"
  from n have e: "e \<noteq> []" by (simp add: trim_def e_def)
  then have "\<not> isWhiteSpace (hd e)" unfolding e_def by (rule hd_dropWhile)
  then show ?thesis using e by (simp add: trim_def e_def last_rev)
qed

lemma row_cells_nonempty: "cell \<in> set (row_cells row) \<Longrightarrow> cell \<noteq> []"
  by (simp add: row_cells_def)

lemma row_cells_trimmed:
  "cell \<in> set (row_cells row) \<Longrightarrow> \<not> isWhiteSpace (hd cell) \<and> \<not> isWhiteSpace (last cell)"
  by (auto simp: row_cells_def trim_hd trim_last)

section \<open>The streaming scenario\<close>

lemma extract_fragment_1:
  "extractArtifacts ''Here is a t'' = \<lparr>artifacts = [], conversationalContent = ''Here is a t''\<rparr>"
  by (simp add: eval_simps)

lemma extract_fragment_2:
  "extractArtifacts ''Here is a table:\<newline>\<newline>'' =
     \<lparr>artifacts = [], conversationalContent = ''Here is a table:''\<rparr>"
  by (simp add: eval_simps)

lemma extract_fragment_3:
  "extractArtifacts ''Here is a table:\<newline>\<newline>|A|B|\<newline>|-|-|\<newline>|1|2|\<newline>'' =
     \<lparr>artifacts = [table_artifact ''|A|B|\<newline>|-|-|\<newline>|1|2|''],
      conversationalContent = ''Here is a table:''\<rparr>"
  by (simp add: eval_simps)

lemma append_fragment_new:
  assumes "\<not> (prev \<noteq> [] \<and> isBot (last prev) \<and> isStreaming (last prev))"
  shows "append_fragment clk (fragment_event f) f prev =
     prev @
     [\<lparr>msg_id = now clk,
       msg_content = f,
       msg_conversationalContent = Some (conversationalContent (extractArtifacts f)),
       msg_artifacts = Some (artifacts (extractArtifacts f)),
       isBot = True,
       agent = Some ''Legal Assistant'',
       timestamp = nowISO clk,
       isStreaming = True,
       hasArtifact = (0 < length (artifacts (extractArtifacts f))),
       thinking = None,
       isError = False\<rparr>]"
  unfolding append_fragment_def if_not_P [OF assms]
  by (simp add: Let_def fragment_event_def truthy_def)

lemma append_fragment_open:
  assumes "isBot m" and "isStreaming m"
  shows "append_fragment clk (fragment_event f) f (ms @ [m]) =
     ms @
     [m\<lparr>msg_content := msg_content m @ f,
        msg_conversationalContent :=
          Some (conversationalContent (extractArtifacts (msg_content m @ f))),
        msg_artifacts := Some (artifacts (extractArtifacts (msg_content m @ f))),
        hasArtifact := 0 < length (artifacts (extractArtifacts (msg_content m @ f)))\<rparr>]"
  using assms by (simp add: append_fragment_def Let_def fragment_event_def truthy_def)

lemma onmessage_fragment:
  "f \<noteq> [] \<Longrightarrow>
   onmessage clk (fragment_event f) st =
     st\<lparr>messages := append_fragment clk (fragment_event f) f (messages st)\<rparr>"
  by (simp add: onmessage_def fragment_event_def truthy_def)

lemma three_fragments:
  assumes "\<not> (ms \<noteq> [] \<and> isBot (last ms) \<and> isStreaming (last ms))"
  shows "messages
       (onmessage c3 (fragment_event ''|A|B|\<newline>|-|-|\<newline>|1|2|\<newline>'')
          (onmessage c2 (fragment_event ''able:\<newline>\<newline>'')
             (onmessage c1 (fragment_event ''Here is a t'')
                \<lparr>messages = ms, isLoading = l\<rparr>)))
     = ms @
       [\<lparr>msg_id = now c1,
         msg_content = ''Here is a table:\<newline>\<newline>|A|B|\<newline>|-|-|\<newline>|1|2|\<newline>'',
         msg_conversationalContent = Some ''Here is a table:'',
         msg_artifacts = Some [table_artifact ''|A|B|\<newline>|-|-|\<newline>|1|2|''],
         isBot = True,
         agent = Some ''Legal Assistant'',
         timestamp = nowISO c1,
         isStreaming = True,
         hasArtifact = True,
         thinking = None,
         isError = False\<rparr>]"
  by (simp add: onmessage_fragment append_fragment_new [OF assms] append_fragment_open
      extract_fragment_1 extract_fragment_2 extract_fragment_3)

section \<open>Texts without a fence, without a pipe\<close>

lemma lazy_until_fence_none: "CHR 0x60 \<notin> set s \<Longrightarrow> lazy_until_fence s = None"
  by (induction s) (auto simp: fence_def)

lemma codeBlockRegex_at_none: "CHR 0x60 \<notin> set s \<Longrightarrow> codeBlockRegex_at i s = None"
  by (cases s) (auto simp: codeBlockRegex_at_def fence_def)

lemma codeBlockRegex_exec_none: "CHR 0x60 \<notin> set s \<Longrightarrow> codeBlockRegex_exec i s = None"
  by (induction s arbitrary: i) (simp_all add: codeBlockRegex_at_none)

lemma code_matches_none: "CHR 0x60 \<notin> set s \<Longrightarrow> code_matches i s = []"
  by (simp add: code_matches.simps [of i s] codeBlockRegex_exec_none)

lemma tableRegex_at_none: "PIPE \<notin> set s \<Longrightarrow> tableRegex_at i s = None"
  by (cases s) (auto simp: tableRegex_at_def table_row_at_def)

lemma tableRegex_exec_none: "PIPE \<notin> set s \<Longrightarrow> tableRegex_exec i s = None"
  by (induction s arbitrary: i) (simp_all add: tableRegex_at_none)

lemma table_matches_none: "PIPE \<notin> set s \<Longrightarrow> table_matches i s = []"
  by (simp add: table_matches.simps [of i s] tableRegex_exec_none)

section \<open>The document expression\<close>

lemma filter_document_code [simp]:
  "filter (\<lambda>a. atype a = Document) (map code_artifact ms) = []"
  by (induction ms) (simp_all add: code_artifact_def)

lemma filter_document_table [simp]:
  "filter (\<lambda>a. atype a = Document) (map (\<lambda>m. table_artifact (trim (matched m))) ms) = []"
  by (induction ms) (simp_all add: table_artifact_def)

lemma document_artifacts:
  "filter (\<lambda>a. atype a = Document) (artifacts (extractArtifacts text)) =
     (case docRegex_exec 0 text of None \<Rightarrow> [] | Some m \<Rightarrow> [document_artifact (matched m)])"
  by (simp add: extractArtifacts_artifacts document_artifact_def split: option.splits)

lemma docRegex_at_length: "docRegex_at s \<Longrightarrow> 204 \<le> length s"
  by (auto simp: docRegex_at_def doc_keywords_def)

lemma docRegex_exec_short: "length s < 204 \<Longrightarrow> docRegex_exec i s = None"
proof (induction s arbitrary: i)
  case Nil
  then show ?case by simp
next
  case (Cons c cs)
  from Cons.prems have "\<not> docRegex_at (c # cs)" by (auto dest: docRegex_at_length)
  with Cons show ?case by simp
qed

lemma docRegex_exec_None_iff:
  "docRegex_exec i s = None \<longleftrightarrow> (\<forall>j. \<not> docRegex_at (drop j s))"
proof (induction s arbitrary: i)
  case Nil
  show ?case by (auto dest: docRegex_at_length)
next
  case (Cons c cs)
  show ?case
  proof (cases "docRegex_at (c # cs)")
    case True
    then have "docRegex_at (drop 0 (c # cs))" by simp
    with True show ?thesis by (metis docRegex_exec.simps(2) option.distinct(1))
  next
    case False
    have "(\<forall>j. \<not> docRegex_at (drop j (c # cs))) \<longleftrightarrow> (\<forall>j. \<not> docRegex_at (drop j cs))"
    proof
      assume a: "\<forall>j. \<not> docRegex_at (drop j (c # cs))"
      show "\<forall>j. \<not> docRegex_at (drop j cs)"
      proof
        fix j from a have "\<not> docRegex_at (drop (Suc j) (c # cs))" by blast
        then show "\<not> docRegex_at (drop j cs)" by simp
      qed
    next
      assume a: "\<forall>j. \<not> docRegex_at (drop j cs)"
      show "\<forall>j. \<not> docRegex_at (drop j (c # cs))"
      proof
        fix j show "\<not> docRegex_at (drop j (c # cs))"
          using a False by (cases j) simp_all
      qed
    qed
    with False Cons.IH [of "Suc i"] show ?thesis by simp
  qed
qed

lemma docRegex_exec_first:
  "docRegex_at (drop j s) \<Longrightarrow> (\<forall>j'<j. \<not> docRegex_at (drop j' s)) \<Longrightarrow>
   docRegex_exec i s = Some \<lparr>index = i + j, matched = drop j s\<rparr>"
proof (induction s arbitrary: i j)
  case Nil
  then show ?case by (auto dest: docRegex_at_length)
next
  case (Cons c cs)
  show ?case
  proof (cases j)
    case 0
    with Cons.prems show ?thesis by simp
  next
    case (Suc n)
    with Cons.prems have f: "\<not> docRegex_at (c # cs)" by force
    from Cons.prems Suc have a: "docRegex_at (drop n cs)" by simp
    have b: "\<forall>j'<n. \<not> docRegex_at (drop j' cs)"
    proof (intro allI impI)
      fix j' assume "j' < n"
      with Suc have "Suc j' < j" by simp
      with Cons.prems have "\<not> docRegex_at (drop (Suc j') (c # cs))" by blast
      then show "\<not> docRegex_at (drop j' cs)" by simp
    qed
    from Cons.IH [OF a b, of "Suc i"] f Suc show ?thesis by simp
  qed
qed

section \<open>Texts that are one document\<close>

lemma keyword_occurs_docRegex_at:
  "keyword_occurs doc_keywords s i = docRegex_at (drop i s)"
proof -
  have h: "\<And>k. (i + length k + 200 \<le> length s) = (length k + 200 \<le> length s - i)"
    by arith
  show ?thesis
    by (simp only: keyword_occurs_def docRegex_at_def keyword_at_def length_drop h)
qed

lemma js_replace_self: "s \<noteq> [] \<Longrightarrow> js_replace s rep s = rep"
  by (cases s) simp_all

lemma cleanup_document_marker: "cleanup ''[Document shown in artifact]'' = []"
  by (simp add: eval_simps)

lemma extract_document_only:
  assumes "CHR 0x60 \<notin> set s" and "PIPE \<notin> set s" and "docRegex_at s"
  shows "extractArtifacts s =
     \<lparr>artifacts = [document_artifact s],
      conversationalContent = ''I've prepared the document as requested.''\<rparr>"
proof -
  from assms(3) have "204 \<le> length s" by (rule docRegex_at_length)
  then have n: "s \<noteq> []" by auto
  with assms(3) have d: "docRegex_exec 0 s = Some \<lparr>index = 0, matched = s\<rparr>"
    by (cases s) simp_all
  have c: "code_matches 0 s = []" using assms(1) by (rule code_matches_none)
  have t: "table_matches 0 s = []" using assms(2) by (rule table_matches_none)
  show ?thesis
    unfolding extractArtifacts_def Let_def code_pass_foldl table_pass_foldl c t doc_pass_def d
    by (simp add: js_replace_self [OF n] cleanup_document_marker fallback_def
        document_artifact_def)
qed

lemma long_document_text:
  "extractArtifacts (''DOCUMENT'' @ replicate 200 (CHR ''x'')) =
     \<lparr>artifacts = [document_artifact (''DOCUMENT'' @ replicate 200 (CHR ''x''))],
      conversationalContent = ''I've prepared the document as requested.''\<rparr>"
proof (rule extract_document_only)
  show "CHR 0x60 \<notin> set (''DOCUMENT'' @ replicate 200 (CHR ''x''))" by simp
  show "PIPE \<notin> set (''DOCUMENT'' @ replicate 200 (CHR ''x''))" by simp
  show "docRegex_at (''DOCUMENT'' @ replicate 200 (CHR ''x''))"
    by (simp add: docRegex_at_def doc_keywords_def keyword_at_def canonicalize_def)
qed

section \<open>The threshold of the document pass\<close>

lemma doc_keywords_cases:
  "k \<in> set doc_keywords \<Longrightarrow>
   k = ''CONTRACT'' \<or> k = ''AGREEMENT'' \<or> k = ''MEMO'' \<or> k = ''POLICY''
   \<or> k = ''PROCEDURE'' \<or> k = ''DOCUMENT''"
  by (simp only: doc_keywords_def set_simps insert_iff empty_iff simp_thms)

lemmas doc_at_simps =
  docRegex_at_def doc_keywords_def keyword_at_def canonicalize_def docRegex_exec_short

lemma docRegex_exec_keyword_199:
  assumes "k \<in> set doc_keywords" and "length t = 199"
  shows "docRegex_exec 0 (k @ t) = None"
proof -
  have 1: "docRegex_exec 0 (''CONTRACT'' @ t) = None"
    using assms(2) by (simp add: doc_at_simps)
  have 2: "docRegex_exec 0 (''AGREEMENT'' @ t) = None"
    using assms(2) by (simp add: doc_at_simps)
  have 3: "docRegex_exec 0 (''MEMO'' @ t) = None"
    using assms(2) by (simp add: doc_at_simps)
  have 4: "docRegex_exec 0 (''POLICY'' @ t) = None"
    using assms(2) by (simp add: doc_at_simps)
  have 5: "docRegex_exec 0 (''PROCEDURE'' @ t) = None"
    using assms(2) by (simp add: doc_at_simps)
  have 6: "docRegex_exec 0 (''DOCUMENT'' @ t) = None"
    using assms(2) by (simp add: doc_at_simps)
  from doc_keywords_cases [OF assms(1)] show ?thesis
    by (elim disjE) (simp_all only: 1 2 3 4 5 6)
qed

lemma docRegex_exec_keyword_200:
  assumes "k \<in> set doc_keywords" and "length t = 200"
  shows "docRegex_exec 0 (k @ t) = Some \<lparr>index = 0, matched = k @ t\<rparr>"
proof -
  have "keyword_at k (k @ t) \<and> length k + 200 \<le> length (k @ t)"
    using assms(2) by (simp add: keyword_at_def)
  with assms(1) have a: "docRegex_at (k @ t)"
    unfolding docRegex_at_def list_ex_iff by blast
  from doc_keywords_cases [OF assms(1)] have "k \<noteq> []" by (elim disjE) simp_all
  then obtain c cs where "k @ t = c # cs" by (cases k) auto
  with a show ?thesis by simp
qed

section \<open>Extracting the remainder again\<close>

lemma table_body_unqualified: "\<not> qualifies m \<Longrightarrow> table_body m st = st"
  by (simp add: table_body_def qualifies_def Let_def)

lemma table_body_foldl_unqualified:
  "filter qualifies ms = [] \<Longrightarrow> foldl (\<lambda>st m. table_body m st) st ms = st"
  by (induction ms arbitrary: st) (auto simp: table_body_unqualified split: if_splits)

lemma fallback_no_artifacts: "fallback [] remaining = remaining"
  by (simp add: fallback_def)

lemma extract_no_artifacts:
  assumes "artifacts (extractArtifacts r) = []"
  shows "extractArtifacts r = \<lparr>artifacts = [], conversationalContent = cleanup r\<rparr>"
proof -
  from assms have c: "code_matches 0 r = []"
    and t: "filter qualifies (table_matches 0 r) = []"
    and d: "docRegex_exec 0 r = None"
    by (auto simp: extractArtifacts_artifacts split: option.splits)
  show ?thesis
    unfolding extractArtifacts_def Let_def code_pass_foldl table_pass_foldl c doc_pass_def d
    by (simp add: table_body_foldl_unqualified [OF t] fallback_no_artifacts)
qed

lemma trim_trim: "trim (trim s) = trim s"
proof (cases "trim s = []")
  case True
  have "trim [] = []" by (simp add: trim_def)
  with True show ?thesis by simp
next
  case False
  define e where "e = dropWhile isWhiteSpace (rev (dropWhile isWhiteSpace s))"
  have t: "trim s = rev e" by (simp add: trim_def e_def)
  with False have e: "e \<noteq> []" by simp
  from trim_hd [OF False] t have "\<not> isWhiteSpace (hd (rev e))" by simp
  then have 1: "dropWhile isWhiteSpace (rev e) = rev e"
    using e by (cases "rev e") simp_all
  from trim_last [OF False] t e have "\<not> isWhiteSpace (hd e)" by (simp add: last_rev)
  then have 2: "dropWhile isWhiteSpace e = e"
    using e by (cases e) simp_all
  show ?thesis
    unfolding t by (simp add: trim_def 1 2)
qed

lemma fallback_trimmed:
  "trim remaining = remaining \<Longrightarrow> trim (fallback as remaining) = fallback as remaining"
  by (simp add: fallback_def trim_def isWhiteSpace_def)

lemma remainder_trimmed:
  "trim (conversationalContent (extractArtifacts s)) = conversationalContent (extractArtifacts s)"
  by (simp add: extractArtifacts_def Let_def cleanup_def fallback_trimmed trim_trim)

lemma takeWhile_three:
  assumes "3 \<le> length (takeWhile (\<lambda>x. x = c) s)"
  shows "\<exists>b. s = [c, c, c] @ b"
proof -
  from assms obtain x y z w where w: "takeWhile (\<lambda>x. x = c) s = x # y # z # w"
    by (cases "takeWhile (\<lambda>x. x = c) s" rule: list.exhaust;
        simp; rename_tac l; case_tac l; simp; rename_tac l; case_tac l; simp)
  have "\<forall>u \<in> set (takeWhile (\<lambda>x. x = c) s). u = c" by (auto dest: set_takeWhileD)
  with w have "x = c" "y = c" "z = c" by simp_all
  with w have "s = [c, c, c] @ (w @ dropWhile (\<lambda>x. x = c) s)"
    using takeWhile_dropWhile_id [of "\<lambda>x. x = c" s] by simp
  then show ?thesis ..
qed

lemma collapse_newlines_fixed:
  "\<not> (\<exists>a b. s = a @ [NL, NL, NL] @ b) \<Longrightarrow> collapse_newlines s = s"
proof (induction s)
  case Nil
  show ?case by (simp add: collapse_newlines.simps [of "[]"])
next
  case (Cons c cs)
  have n: "\<not> 3 \<le> length (takeWhile (\<lambda>x. x = NL) (c # cs))"
  proof
    assume "3 \<le> length (takeWhile (\<lambda>x. x = NL) (c # cs))"
    from takeWhile_three [OF this] obtain b where "c # cs = [] @ [NL, NL, NL] @ b" by auto
    with Cons.prems show False by blast
  qed
  have "\<not> (\<exists>a b. cs = a @ [NL, NL, NL] @ b)"
  proof
    assume "\<exists>a b. cs = a @ [NL, NL, NL] @ b"
    then obtain a b where "cs = a @ [NL, NL, NL] @ b" by blast
    then have "c # cs = (c # a) @ [NL, NL, NL] @ b" by simp
    with Cons.prems show False by blast
  qed
  from Cons.IH [OF this] n show ?case
    by (subst collapse_newlines.simps) (simp add: Let_def)
qed

lemma placeholderRegex_at_none: "CHR ''['' \<notin> set s \<Longrightarrow> placeholderRegex_at s = None"
proof -
  assume a: "CHR ''['' \<notin> set s"
  have "set (dropWhile isWhiteSpace s) \<subseteq> set s" by (rule set_dropWhileD [THEN subsetI])
  with a have "CHR ''['' \<notin> set (dropWhile isWhiteSpace s)" by blast
  then show ?thesis
  proof (cases "dropWhile isWhiteSpace s")
    case Nil
    show ?thesis by (simp only: placeholderRegex_at_def Nil list.case)
  next
    case (Cons c cs)
    assume "CHR ''['' \<notin> set (dropWhile isWhiteSpace s)"
    with Cons have "c \<noteq> CHR ''[''" by auto
    then show ?thesis by (simp add: placeholderRegex_at_def Cons)
  qed
qed

lemma strip_placeholders_fixed:
  "CHR ''['' \<notin> set s \<Longrightarrow> strip_placeholders bol s = s"
proof (induction s arbitrary: bol)
  case Nil
  show ?case by (simp add: strip_placeholders.simps [of bol "[]"] placeholderRegex_at_none)
next
  case (Cons c cs)
  from Cons.prems have "placeholderRegex_at (c # cs) = None" by (rule placeholderRegex_at_none)
  moreover from Cons have "strip_placeholders (isLineTerminator c) cs = cs" by simp
  ultimately show ?case by (simp add: strip_placeholders.simps [of bol "c # cs"])
qed

section \<open>The shape of a table match\<close>

lemma dropWhile_neq_hd:
  "c \<in> set s \<Longrightarrow> \<exists>rest. dropWhile (\<lambda>x. x \<noteq> c) s = c # rest"
proof -
  assume "c \<in> set s"
  then have "dropWhile (\<lambda>x. x \<noteq> c) s \<noteq> []" by (auto simp: dropWhile_eq_Nil_conv)
  then obtain y ys where d: "dropWhile (\<lambda>x. x \<noteq> c) s = y # ys"
    by (cases "dropWhile (\<lambda>x. x \<noteq> c) s") auto
  from hd_dropWhile [of "\<lambda>x. x \<noteq> c" s] d have "y = c" by simp
  with d show ?thesis by simp
qed

lemma table_row_at_split:
  assumes "table_row_at s = Some (row, rest)"
  shows "s = row @ rest \<and> row \<noteq> [] \<and> last row = NL"
proof -
  from assms obtain c r k where s: "s = c # r"
    and nl: "NL \<in> set (drop k r)"
    and row: "row = c # take k r @ takeWhile (\<lambda>x. x \<noteq> NL) (drop k r) @ [NL]"
    and rest: "rest = drop 1 (dropWhile (\<lambda>x. x \<noteq> NL) (drop k r))"
    by (auto simp: table_row_at_def Let_def split: list.splits if_splits)
  from dropWhile_neq_hd [OF nl] obtain t where
    t: "dropWhile (\<lambda>x. x \<noteq> NL) (drop k r) = NL # t" by blast
  have "drop k r = takeWhile (\<lambda>x. x \<noteq> NL) (drop k r) @ dropWhile (\<lambda>x. x \<noteq> NL) (drop k r)"
    by simp
  with t rest have "drop k r = takeWhile (\<lambda>x. x \<noteq> NL) (drop k r) @ [NL] @ rest"
    by simp
  moreover have "r = take k r @ drop k r" by simp
  ultimately have "r = take k r @ takeWhile (\<lambda>x. x \<noteq> NL) (drop k r) @ [NL] @ rest"
    by metis
  with s row show ?thesis by simp
qed

lemma table_rows_split: "table_rows s = (rows, rest) \<Longrightarrow> s = rows @ rest"
proof (induction s arbitrary: rows rest rule: table_rows.induct)
  case (1 s)
  show ?case
  proof (cases "table_row_at s")
    case None
    with "1.prems" show ?thesis by (simp add: table_rows.simps [of s])
  next
    case (Some p)
    obtain row r where p: "p = (row, r)" by (cases p)
    obtain others rest' where t: "table_rows r = (others, rest')" by (cases "table_rows r")
    from "1.prems" Some p t have e: "rows = row @ others" "rest = rest'"
      by (simp_all add: table_rows.simps [of s])
    from "1.IH" [OF Some p [symmetric] t] have "r = others @ rest'" .
    moreover from table_row_at_split Some p have "s = row @ r" by simp
    ultimately show ?thesis using e by simp
  qed
qed

lemma tableRegex_at_split:
  assumes "tableRegex_at i s = Some (m, rest)"
  shows "s = matched m @ rest \<and> matched m \<noteq> [] \<and> index m = i"
proof -
  from assms obtain row r others where r: "table_row_at s = Some (row, r)"
    and t: "table_rows r = (others, rest)" and m: "m = \<lparr>index = i, matched = row @ others\<rparr>"
    by (auto simp: tableRegex_at_def split: option.splits prod.splits)
  from table_row_at_split [OF r] table_rows_split [OF t] m show ?thesis by simp
qed

lemma tableRegex_exec_split:
  "tableRegex_exec i s = Some (m, rest) \<Longrightarrow> \<exists>pre. s = pre @ matched m @ rest"
proof (induction s arbitrary: i)
  case Nil
  then show ?case by simp
next
  case (Cons c cs)
  show ?case
  proof (cases "tableRegex_at i (c # cs)")
    case None
    with Cons.prems have "tableRegex_exec (Suc i) cs = Some (m, rest)" by simp
    from Cons.IH [OF this] obtain pre where "cs = pre @ matched m @ rest" by blast
    then have "c # cs = (c # pre) @ matched m @ rest" by simp
    then show ?thesis by blast
  next
    case (Some p)
    with Cons.prems have "tableRegex_at i (c # cs) = Some (m, rest)" by simp
    from tableRegex_at_split [OF this] have "c # cs = [] @ matched m @ rest" by simp
    then show ?thesis by blast
  qed
qed

section \<open>Lines and trimming\<close>

lemma js_split_no_sep: "sep \<notin> set s \<Longrightarrow> js_split sep s = [s]"
  by (induction s) auto

lemma js_split_first: "sep \<notin> set a \<Longrightarrow> js_split sep (a @ sep # u) = a # js_split sep u"
  by (induction a) auto

lemma js_split_hd: "c \<noteq> sep \<Longrightarrow> \<exists>h t. js_split sep (c # w) = (c # h) # t"
  by (cases "js_split sep w") auto

lemma trim_nonempty: "\<exists>x \<in> set s. \<not> isWhiteSpace x \<Longrightarrow> trim s \<noteq> []"
proof
  assume a: "\<exists>x \<in> set s. \<not> isWhiteSpace x" and "trim s = []"
  then have "\<forall>x \<in> set (dropWhile isWhiteSpace s). isWhiteSpace x"
    by (simp add: trim_def dropWhile_eq_Nil_conv)
  moreover from a have d: "dropWhile isWhiteSpace s \<noteq> []"
    by (simp add: dropWhile_eq_Nil_conv)
  then have "\<not> isWhiteSpace (hd (dropWhile isWhiteSpace s))" by (rule hd_dropWhile)
  moreover from d have "hd (dropWhile isWhiteSpace s) \<in> set (dropWhile isWhiteSpace s)"
    by simp
  ultimately show False by blast
qed

lemma trim_sublist: "\<exists>l t. s = l @ trim s @ t"
proof -
  define d where "d = dropWhile isWhiteSpace s"
  have 1: "s = takeWhile isWhiteSpace s @ d" by (simp add: d_def)
  have "rev (dropWhile isWhiteSpace (rev d)) @ rev (takeWhile isWhiteSpace (rev d)) =
      rev (takeWhile isWhiteSpace (rev d) @ dropWhile isWhiteSpace (rev d))"
    by (simp only: rev_append)
  also have "\<dots> = rev (rev d)" by (simp only: takeWhile_dropWhile_id)
  also have "\<dots> = d" by simp
  finally have 2: "d = trim s @ rev (takeWhile isWhiteSpace (rev d))"
    by (simp add: trim_def d_def)
  from 1 2 have "s = takeWhile isWhiteSpace s @ trim s @ rev (takeWhile isWhiteSpace (rev d))"
    by simp
  then show ?thesis by blast
qed

lemma trim_keeps_front:
  assumes "x \<noteq> []" and "\<not> isWhiteSpace (hd x)" and "\<not> isWhiteSpace p"
  shows "\<exists>w. trim (x @ p # y) = x @ p # w"
proof -
  from assms(1,2) have 1: "dropWhile isWhiteSpace (x @ p # y) = x @ p # y"
    by (cases x) simp_all
  have "\<exists>v. dropWhile isWhiteSpace (rev y @ p # rev x) = v @ p # rev x"
  proof (cases "\<forall>u \<in> set (rev y). isWhiteSpace u")
    case True
    with assms(3) have "dropWhile isWhiteSpace (rev y @ p # rev x) = [] @ p # rev x"
      by (simp add: dropWhile_append)
    then show ?thesis by blast
  next
    case False
    then have "dropWhile isWhiteSpace (rev y @ p # rev x) =
        dropWhile isWhiteSpace (rev y) @ p # rev x"
      by (simp only: dropWhile_append if_False)
    then show ?thesis by blast
  qed
  then obtain v where "dropWhile isWhiteSpace (rev y @ p # rev x) = v @ p # rev x" by blast
  with 1 have "trim (x @ p # y) = x @ p # rev v" by (simp add: trim_def)
  then show ?thesis by blast
qed

section \<open>A text of one line\<close>

lemma qualifies_inner_newline:
  assumes "qualifies m"
  shows "\<exists>a b. matched m = a @ NL # b \<and> b \<noteq> []"
proof -
  define tm where "tm = trim (matched m)"
  have "length (nonblank_rows tm) \<le> length (js_split NL tm)"
    by (simp add: nonblank_rows_def)
  with assms have two: "2 \<le> length (js_split NL tm)" by (simp add: qualifies_def tm_def)
  have nl: "NL \<in> set tm"
  proof (rule ccontr)
    assume "NL \<notin> set tm"
    then have "js_split NL tm = [tm]" by (rule js_split_no_sep)
    with two show False by simp
  qed
  then obtain a b where ab: "tm = a @ NL # b" by (auto dest: split_list)
  have "b \<noteq> []"
  proof
    assume "b = []"
    with ab have "last tm = NL" and "tm \<noteq> []" by simp_all
    with trim_last [of "matched m"] show False by (simp add: tm_def isWhiteSpace_def)
  qed
  moreover from trim_sublist [of "matched m"] obtain l t where "matched m = l @ tm @ t"
    unfolding tm_def by blast
  with ab have "matched m = (l @ a) @ NL # (b @ t)" by simp
  ultimately show ?thesis by blast
qed

lemma one_line_no_table_all:
  "\<forall>i. (\<forall>a b. u = a @ NL # b \<longrightarrow> b = []) \<longrightarrow> filter qualifies (table_matches i u) = []"
proof (induction u rule: length_induct)
  case (1 u)
  show ?case
  proof (intro allI impI)
    fix i
    assume one: "\<forall>a b. u = a @ NL # b \<longrightarrow> b = []"
    show "filter qualifies (table_matches i u) = []"
    proof (cases "tableRegex_exec i u")
      case None
      then show ?thesis by (simp add: table_matches.simps [of i u])
    next
      case (Some p)
      obtain m rest where p: "p = (m, rest)" by (cases p)
      from Some p have e: "tableRegex_exec i u = Some (m, rest)" by simp
      from tableRegex_exec_split [OF e] obtain pre where u: "u = pre @ matched m @ rest"
        by blast
      have nq: "\<not> qualifies m"
      proof
        assume "qualifies m"
        from qualifies_inner_newline [OF this] obtain a b where
          "matched m = a @ NL # b" and b: "b \<noteq> []" by blast
        with u have "u = (pre @ a) @ NL # (b @ rest)" by simp
        with one have "b @ rest = []" by blast
        with b show False by simp
      qed
      have "\<forall>a b. rest = a @ NL # b \<longrightarrow> b = []"
      proof (intro allI impI)
        fix a b assume "rest = a @ NL # b"
        with u have "u = (pre @ matched m @ a) @ NL # b" by simp
        with one show "b = []" by blast
      qed
      moreover from e have "length rest < length u" by (rule tableRegex_exec_shorter)
      ultimately have "filter qualifies (table_matches (index m + length (matched m)) rest) = []"
        using 1 by blast
      with nq e show ?thesis by (simp add: table_matches.simps [of i u])
    qed
  qed
qed

lemma one_line_no_table:
  assumes "NL \<notin> set s"
  shows "filter qualifies (table_matches i s) = []"
    and "filter qualifies (table_matches i (s @ [NL])) = []"
proof -
  have "\<forall>a b. s = a @ NL # b \<longrightarrow> b = []" using assms by auto
  with one_line_no_table_all show "filter qualifies (table_matches i s) = []" by blast
  have "\<forall>a b. s @ [NL] = a @ NL # b \<longrightarrow> b = []"
  proof (intro allI impI, rule ccontr)
    fix a b assume e: "s @ [NL] = a @ NL # b" and "b \<noteq> []"
    then obtain b' x where "b = b' @ [x]" by (metis rev_exhaust)
    with e have "s @ [NL] = (a @ NL # b') @ [x]" by simp
    then have "s = a @ NL # b'" by (simp only: append1_eq_conv)
    with assms show False by simp
  qed
  with one_line_no_table_all show "filter qualifies (table_matches i (s @ [NL])) = []" by blast
qed

lemma filter_table_code [simp]:
  "filter (\<lambda>a. atype a = Table) (map code_artifact ms) = []"
  by (induction ms) (simp_all add: code_artifact_def)

lemma filter_table_table [simp]:
  "filter (\<lambda>a. atype a = Table) (map (\<lambda>m. table_artifact (trim (matched m))) ms) =
     map (\<lambda>m. table_artifact (trim (matched m))) ms"
  by (induction ms) (simp_all add: table_artifact_def)

lemma table_artifacts:
  "filter (\<lambda>a. atype a = Table) (artifacts (extractArtifacts text)) =
     map (\<lambda>m. table_artifact (trim (matched m))) (filter qualifies (table_matches 0 text))"
  by (simp add: extractArtifacts_artifacts document_artifact_def split: option.splits)

section \<open>A run of table lines\<close>

lemma takeWhile_neq: "c \<notin> set a \<Longrightarrow> takeWhile (\<lambda>x. x \<noteq> c) (a @ c # r) = a"
  by (induction a) auto

lemma dropWhile_neq: "c \<notin> set a \<Longrightarrow> dropWhile (\<lambda>x. x \<noteq> c) (a @ c # r) = c # r"
  by (induction a) auto

lemma lines_text_Cons: "lines_text (row # rows) = row @ NL # lines_text rows"
  by (simp add: lines_text_def)

lemma table_row_at_no_pipe: "PIPE \<notin> set s \<Longrightarrow> table_row_at s = None"
  by (cases s) (auto simp: table_row_at_def)

lemma table_row_at_line:
  assumes "table_line row"
  shows "table_row_at (row @ NL # rest) = Some (row @ [NL], rest)"
proof -
  define line where "line = takeWhile (\<lambda>x. \<not> isLineTerminator x) (tl row)"
  from assms obtain body where row: "row = PIPE # body" and nl: "NL \<notin> set body"
    and p: "PIPE \<in> set line"
    by (auto simp: table_line_def line_def split: list.splits)
  have l: "line = takeWhile (\<lambda>x. \<not> isLineTerminator x) body" by (simp add: line_def row)
  have line: "takeWhile (\<lambda>x. \<not> isLineTerminator x) (body @ NL # rest) = line"
  proof (cases "\<forall>x \<in> set body. \<not> isLineTerminator x")
    case True
    have nlt: "isLineTerminator NL" by (simp add: isLineTerminator_def)
    from True have "line = body" by (simp add: l takeWhile_eq_all_conv)
    moreover from True have "takeWhile (\<lambda>x. \<not> isLineTerminator x) (body @ NL # rest) =
        body @ takeWhile (\<lambda>x. \<not> isLineTerminator x) (NL # rest)"
      by (simp add: takeWhile_append2)
    ultimately show ?thesis using nlt by simp
  next
    case False
    then obtain x where "x \<in> set body" and "\<not> \<not> isLineTerminator x" by blast
    then show ?thesis unfolding l by (rule takeWhile_append1)
  qed
  define k where "k = after_last_pipe line"
  have "k \<le> length line" by (simp add: k_def after_last_pipe_def)
  moreover have "length line \<le> length body" unfolding l by (rule length_takeWhile_le)
  ultimately have k: "k \<le> length body" by simp
  have d: "drop k (body @ NL # rest) = drop k body @ NL # rest" using k by simp
  have t: "take k (body @ NL # rest) = take k body" using k by simp
  have nl': "NL \<notin> set (drop k body)" using nl by (auto dest: in_set_dropD)
  have tw: "takeWhile (\<lambda>x. x \<noteq> NL) (drop k body @ NL # rest) = drop k body"
    using nl' by (rule takeWhile_neq)
  have dw: "dropWhile (\<lambda>x. x \<noteq> NL) (drop k body @ NL # rest) = NL # rest"
    using nl' by (rule dropWhile_neq)
  show ?thesis
    unfolding row table_row_at_def append_Cons list.case Let_def line k_def [symmetric] d t tw dw
    using p by simp
qed

lemma table_rows_lines:
  assumes "\<forall>row \<in> set rows. table_line row" and "table_row_at post = None"
  shows "table_rows (lines_text rows @ post) = (lines_text rows, post)"
  using assms(1)
proof (induction rows)
  case Nil
  show ?case using assms(2) by (simp add: lines_text_def table_rows.simps [of post])
next
  case (Cons row rows)
  then have l: "table_line row" and IH: "table_rows (lines_text rows @ post) = (lines_text rows, post)"
    by simp_all
  have e: "lines_text (row # rows) @ post = row @ NL # (lines_text rows @ post)"
    by (simp add: lines_text_Cons)
  show ?case
    unfolding e
    by (subst table_rows.simps) (simp add: table_row_at_line [OF l] IH lines_text_Cons)
qed

lemma tableRegex_at_lines:
  assumes "\<forall>row \<in> set rows. table_line row" and "rows \<noteq> []" and "table_row_at post = None"
  shows "tableRegex_at i (lines_text rows @ post) =
     Some (\<lparr>index = i, matched = lines_text rows\<rparr>, post)"
proof -
  from assms(2) obtain row rs where rows: "rows = row # rs" by (cases rows) auto
  with assms(1) have l: "table_line row" and r: "\<forall>row \<in> set rs. table_line row" by simp_all
  have e: "lines_text rows @ post = row @ NL # (lines_text rs @ post)"
    by (simp add: rows lines_text_Cons)
  show ?thesis
    unfolding e tableRegex_at_def
    by (simp add: table_row_at_line [OF l] table_rows_lines [OF r assms(3)] rows lines_text_Cons)
qed

lemma tableRegex_exec_skip:
  "PIPE \<notin> set pre \<Longrightarrow> u \<noteq> [] \<Longrightarrow>
   tableRegex_exec i (pre @ u) = tableRegex_exec (i + length pre) u"
proof (induction pre arbitrary: i)
  case Nil
  show ?case by simp
next
  case (Cons c pre)
  then have "tableRegex_at i (c # pre @ u) = None"
    by (auto simp: tableRegex_at_def table_row_at_def)
  with Cons show ?case by simp
qed

lemma table_line_front: "table_line row \<Longrightarrow> \<exists>body. row = PIPE # body \<and> NL \<notin> set row"
  by (auto simp: table_line_def split: list.splits)

lemma qualifies_lines:
  assumes "\<forall>row \<in> set rows. table_line row" and "2 \<le> length rows"
  shows "qualifies \<lparr>index = i, matched = lines_text rows\<rparr>"
proof -
  from assms(2) obtain r1 r2 rs where rows: "rows = r1 # r2 # rs"
    by (cases rows; simp; rename_tac l; case_tac l; simp)
  with assms(1) have "table_line r1" and "table_line r2" by simp_all
  with table_line_front obtain b1 b2 where r1: "r1 = PIPE # b1" and n1: "NL \<notin> set r1"
    and r2: "r2 = PIPE # b2" by blast
  define x where "x = r1 @ [NL]"
  define y where "y = b2 @ NL # lines_text rs"
  have t: "lines_text rows = x @ PIPE # y"
    by (simp add: rows lines_text_Cons x_def y_def r2)
  have "x \<noteq> []" and "\<not> isWhiteSpace (hd x)" and "\<not> isWhiteSpace PIPE"
    by (simp_all add: x_def r1 isWhiteSpace_def)
  from trim_keeps_front [OF this] obtain w where "trim (x @ PIPE # y) = x @ PIPE # w" by blast
  with t have tr: "trim (lines_text rows) = r1 @ NL # PIPE # w" by (simp add: x_def)
  obtain h tl where h: "js_split NL (PIPE # w) = (PIPE # h) # tl"
    using js_split_hd [of PIPE NL w] by auto
  have s: "js_split NL (trim (lines_text rows)) = r1 # (PIPE # h) # tl"
    unfolding tr by (simp only: js_split_first [OF n1] h)
  have a: "trim r1 \<noteq> []" by (rule trim_nonempty) (auto simp: r1 isWhiteSpace_def)
  have b: "trim (PIPE # h) \<noteq> []" by (rule trim_nonempty) (auto simp: isWhiteSpace_def)
  show ?thesis
    by (simp add: qualifies_def nonblank_rows_def s a b)
qed

lemma table_matches_lines:
  assumes "\<forall>row \<in> set rows. table_line row" and "2 \<le> length rows"
    and "PIPE \<notin> set pre" and "PIPE \<notin> set post"
  shows "table_matches 0 (pre @ lines_text rows @ post) =
     [\<lparr>index = length pre, matched = lines_text rows\<rparr>]"
proof -
  from assms(2) have ne: "rows \<noteq> []" by auto
  then have u: "lines_text rows @ post \<noteq> []"
    by (cases rows) (simp_all add: lines_text_def)
  have post: "table_row_at post = None"
    using assms(4) by (rule table_row_at_no_pipe)
  have "tableRegex_exec 0 (pre @ lines_text rows @ post) =
      tableRegex_exec (0 + length pre) (lines_text rows @ post)"
    using assms(3) u by (rule tableRegex_exec_skip)
  also have "\<dots> = Some (\<lparr>index = length pre, matched = lines_text rows\<rparr>, post)"
    using u tableRegex_at_lines [OF assms(1) ne post, of "length pre"]
    by (cases "lines_text rows @ post") simp_all
  finally have e: "tableRegex_exec 0 (pre @ lines_text rows @ post) =
      Some (\<lparr>index = length pre, matched = lines_text rows\<rparr>, post)" .
  show ?thesis
    by (subst table_matches.simps) (simp add: e table_matches_none [OF assms(4)])
qed

section \<open>Every table artifact has two lines\<close>

lemma table_row_at_shape:
  assumes "table_row_at s = Some (row, rest)"
  shows "\<exists>body. row = PIPE # body @ [NL] \<and> NL \<notin> set body"
proof -
  from assms obtain r where s: "s = PIPE # r" by (cases s) (auto simp: table_row_at_def split: if_splits)
  define line where "line = takeWhile (\<lambda>x. \<not> isLineTerminator x) r"
  define k where "k = after_last_pipe line"
  from assms s have row: "row = PIPE # take k r @ takeWhile (\<lambda>x. x \<noteq> NL) (drop k r) @ [NL]"
    by (auto simp: table_row_at_def Let_def line_def k_def split: if_splits)
  have k: "k \<le> length line" by (simp add: k_def after_last_pipe_def)
  have "r = line @ dropWhile (\<lambda>x. \<not> isLineTerminator x) r" by (simp add: line_def)
  then have "take k r = take k (line @ dropWhile (\<lambda>x. \<not> isLineTerminator x) r)" by simp
  with k have t: "take k r = take k line" by simp
  have "\<forall>x \<in> set line. \<not> isLineTerminator x" by (auto simp: line_def dest: set_takeWhileD)
  then have "NL \<notin> set line" by (auto simp: isLineTerminator_def)
  then have 1: "NL \<notin> set (take k r)" unfolding t by (auto dest: in_set_takeD)
  have 2: "NL \<notin> set (takeWhile (\<lambda>x. x \<noteq> NL) (drop k r))" by (auto dest: set_takeWhileD)
  from 1 2 have "NL \<notin> set (take k r @ takeWhile (\<lambda>x. x \<noteq> NL) (drop k r))" by simp
  with row show ?thesis by auto
qed

lemma table_rows_front:
  assumes "table_rows s = (others, rest)"
  shows "others = [] \<or> (\<exists>t. others = PIPE # t)"
proof (cases "table_row_at s")
  case None
  with assms show ?thesis by (simp add: table_rows.simps [of s])
next
  case (Some p)
  obtain row r where p: "p = (row, r)" by (cases p)
  from table_row_at_shape Some p obtain body where "row = PIPE # body @ [NL]" by blast
  with assms Some p show ?thesis
    by (auto simp: table_rows.simps [of s] split: prod.splits)
qed

lemma tableRegex_at_two_lines:
  assumes "tableRegex_at i s = Some (m, rest)" and "qualifies m"
  shows "\<exists>l b. matched m = PIPE # l @ NL # PIPE # b \<and> NL \<notin> set l"
proof -
  from assms(1) obtain row r others where r: "table_row_at s = Some (row, r)"
    and t: "table_rows r = (others, rest)" and m: "matched m = row @ others"
    by (auto simp: tableRegex_at_def split: option.splits prod.splits)
  from table_row_at_shape [OF r] obtain body where row: "row = PIPE # body @ [NL]"
    and nl: "NL \<notin> set body" by blast
  have "others \<noteq> []"
  proof
    assume "others = []"
    with m row have e: "matched m = (PIPE # body) @ [NL]" by simp
    from qualifies_inner_newline [OF assms(2)] obtain a b where
      ab: "matched m = a @ NL # b" and b: "b \<noteq> []" by blast
    from b obtain b' x where "b = b' @ [x]" by (metis rev_exhaust)
    with ab e have "(PIPE # body) @ [NL] = (a @ NL # b') @ [x]" by simp
    then have "PIPE # body = a @ NL # b'" by (simp only: append1_eq_conv)
    then have "NL \<in> set (PIPE # body)" by simp
    with nl show False by simp
  qed
  with table_rows_front [OF t] obtain u where "others = PIPE # u" by blast
  with m row have "matched m = PIPE # body @ NL # PIPE # u" by simp
  with nl show ?thesis by blast
qed

lemma tableRegex_exec_at:
  "tableRegex_exec i s = Some (m, rest) \<Longrightarrow> \<exists>j u. tableRegex_at j u = Some (m, rest)"
proof (induction s arbitrary: i)
  case Nil
  then show ?case by simp
next
  case (Cons c cs)
  show ?case
  proof (cases "tableRegex_at i (c # cs)")
    case None
    with Cons.prems have "tableRegex_exec (Suc i) cs = Some (m, rest)" by simp
    then show ?thesis by (rule Cons.IH)
  next
    case (Some p)
    with Cons.prems have "tableRegex_at i (c # cs) = Some (m, rest)" by simp
    then show ?thesis by blast
  qed
qed

lemma table_matches_at_all:
  "\<forall>i. m \<in> set (table_matches i s) \<longrightarrow> (\<exists>j u rest. tableRegex_at j u = Some (m, rest))"
proof (induction s rule: length_induct)
  case (1 s)
  show ?case
  proof (intro allI impI)
    fix i assume a: "m \<in> set (table_matches i s)"
    show "\<exists>j u rest. tableRegex_at j u = Some (m, rest)"
    proof (cases "tableRegex_exec i s")
      case None
      with a show ?thesis by (simp add: table_matches.simps [of i s])
    next
      case (Some p)
      obtain m' rest where p: "p = (m', rest)" by (cases p)
      from Some p have e: "tableRegex_exec i s = Some (m', rest)" by simp
      from a e have "m = m' \<or> m \<in> set (table_matches (index m' + length (matched m')) rest)"
        by (simp add: table_matches.simps [of i s])
      then show ?thesis
      proof
        assume "m = m'"
        with tableRegex_exec_at [OF e] show ?thesis by blast
      next
        assume b: "m \<in> set (table_matches (index m' + length (matched m')) rest)"
        from e have "length rest < length s" by (rule tableRegex_exec_shorter)
        with 1 b show ?thesis by blast
      qed
    qed
  qed
qed

lemma table_artifact_two_lines:
  assumes "a \<in> set (artifacts (extractArtifacts s))" and "atype a = Table"
  shows "\<exists>l b. content a = PIPE # l @ NL # PIPE # b \<and> NL \<notin> set l"
proof -
  from assms have "a \<in> set (filter (\<lambda>a. atype a = Table) (artifacts (extractArtifacts s)))"
    by simp
  then obtain m where m: "m \<in> set (table_matches 0 s)" and q: "qualifies m"
    and a: "a = table_artifact (trim (matched m))"
    unfolding table_artifacts by auto
  from table_matches_at_all m obtain j u rest where "tableRegex_at j u = Some (m, rest)"
    by blast
  from tableRegex_at_two_lines [OF this q] obtain l b where
    mm: "matched m = PIPE # l @ NL # PIPE # b" and nl: "NL \<notin> set l" by blast
  have "(PIPE # l @ [NL]) \<noteq> []" and "\<not> isWhiteSpace (hd (PIPE # l @ [NL]))"
    and "\<not> isWhiteSpace PIPE"
    by (simp_all add: isWhiteSpace_def)
  from trim_keeps_front [OF this, of b] obtain w where
    "trim ((PIPE # l @ [NL]) @ PIPE # b) = (PIPE # l @ [NL]) @ PIPE # w" by blast
  with mm have "trim (matched m) = PIPE # l @ NL # PIPE # w" by simp
  with a nl show ?thesis by (auto simp: table_artifact_def)
qed

section \<open>The loops end\<close>

lemma code_matches_length_all: "\<forall>i. length (code_matches i s) \<le> length s"
proof (induction s rule: length_induct)
  case (1 s)
  show ?case
  proof
    fix i
    show "length (code_matches i s) \<le> length s"
    proof (cases "codeBlockRegex_exec i s")
      case None
      then show ?thesis by (simp add: code_matches.simps [of i s])
    next
      case (Some p)
      obtain m rest where p: "p = (m, rest)" by (cases p)
      from Some p have l: "length rest < length s" by (auto dest: codeBlockRegex_exec_shorter)
      with 1 have "length (code_matches (c_index m + length (c_all m)) rest) \<le> length rest"
        by blast
      with l Some p show ?thesis by (simp add: code_matches.simps [of i s])
    qed
  qed
qed

lemma table_matches_length_all: "\<forall>i. length (table_matches i s) \<le> length s"
proof (induction s rule: length_induct)
  case (1 s)
  show ?case
  proof
    fix i
    show "length (table_matches i s) \<le> length s"
    proof (cases "tableRegex_exec i s")
      case None
      then show ?thesis by (simp add: table_matches.simps [of i s])
    next
      case (Some p)
      obtain m rest where p: "p = (m, rest)" by (cases p)
      from Some p have l: "length rest < length s" by (auto dest: tableRegex_exec_shorter)
      with 1 have "length (table_matches (index m + length (matched m)) rest) \<le> length rest"
        by blast
      with l Some p show ?thesis by (simp add: table_matches.simps [of i s])
    qed
  qed
qed

section \<open>A run of table lines in any text\<close>

lemma append_eq_cases:
  "a @ b = c @ d \<Longrightarrow> (\<exists>u. a = c @ u \<and> d = u @ b) \<or> (\<exists>u. c = a @ u \<and> b = u @ d)"
  by (auto simp: append_eq_append_conv2)

lemma append_eq_longer:
  assumes "a @ b = c @ d" and "length a < length c"
  shows "\<exists>z. c = a @ z \<and> z \<noteq> [] \<and> b = z @ d"
proof -
  from append_eq_cases [OF assms(1)] assms(2) obtain u where "c = a @ u" "b = u @ d"
    by auto
  with assms(2) show ?thesis by auto
qed

lemma append_eq_shorter:
  assumes "a @ b = c @ d" and "length c \<le> length a"
  shows "\<exists>z. a = c @ z \<and> d = z @ b"
proof -
  from append_eq_cases [OF assms(1)] show ?thesis
  proof
    assume "\<exists>u. a = c @ u \<and> d = u @ b"
    then show ?thesis .
  next
    assume "\<exists>u. c = a @ u \<and> b = u @ d"
    then obtain u where u: "c = a @ u" "b = u @ d" by blast
    with assms(2) have "u = []" by simp
    with u show ?thesis by simp
  qed
qed

lemma table_rows_stop: "table_rows s = (others, rest) \<Longrightarrow> table_row_at rest = None"
proof (induction s arbitrary: others rest rule: table_rows.induct)
  case (1 s)
  show ?case
  proof (cases "table_row_at s")
    case None
    with "1.prems" show ?thesis by (simp add: table_rows.simps [of s])
  next
    case (Some p)
    obtain row r where p: "p = (row, r)" by (cases p)
    obtain o' rest' where t: "table_rows r = (o', rest')" by (cases "table_rows r")
    from "1.prems" Some p t have "rest = rest'" by (simp add: table_rows.simps [of s])
    with "1.IH" [OF Some p [symmetric] t] show ?thesis by simp
  qed
qed

lemma table_rows_last: "table_rows s = (others, rest) \<Longrightarrow> others = [] \<or> last others = NL"
proof (induction s arbitrary: others rest rule: table_rows.induct)
  case (1 s)
  show ?case
  proof (cases "table_row_at s")
    case None
    with "1.prems" show ?thesis by (simp add: table_rows.simps [of s])
  next
    case (Some p)
    obtain row r where p: "p = (row, r)" by (cases p)
    obtain o' rest' where t: "table_rows r = (o', rest')" by (cases "table_rows r")
    from "1.prems" Some p t have e: "others = row @ o'" by (simp add: table_rows.simps [of s])
    from table_row_at_split Some p have r: "row \<noteq> []" "last row = NL" by simp_all
    from "1.IH" [OF Some p [symmetric] t] have "o' = [] \<or> last o' = NL" .
    with e r show ?thesis by (cases "o' = []") auto
  qed
qed

lemma tableRegex_at_stop:
  assumes "tableRegex_at i s = Some (m, rest)"
  shows "table_row_at rest = None \<and> last (matched m) = NL \<and> hd (matched m) = PIPE"
proof -
  from assms obtain row r others where r: "table_row_at s = Some (row, r)"
    and t: "table_rows r = (others, rest)" and m: "matched m = row @ others"
    by (auto simp: tableRegex_at_def split: option.splits prod.splits)
  from table_row_at_shape [OF r] obtain body where row: "row = PIPE # body @ [NL]" by blast
  from table_rows_last [OF t] row m have "last (matched m) = NL" by auto
  with table_rows_stop [OF t] row m show ?thesis by simp
qed

lemma table_rows_lines_more:
  assumes "\<forall>row \<in> set rows. table_line row"
  shows "\<exists>y rest. table_rows (lines_text rows @ post) = (lines_text rows @ y, rest)"
  using assms
proof (induction rows)
  case Nil
  obtain y rest where "table_rows post = (y, rest)" by (cases "table_rows post")
  then show ?case by (simp add: lines_text_def)
next
  case (Cons row rows)
  then have l: "table_line row" by simp
  from Cons obtain y rest where
    IH: "table_rows (lines_text rows @ post) = (lines_text rows @ y, rest)" by auto
  have e: "lines_text (row # rows) @ post = row @ NL # (lines_text rows @ post)"
    by (simp add: lines_text_Cons)
  have "table_rows (lines_text (row # rows) @ post) = (lines_text (row # rows) @ y, rest)"
    unfolding e
    by (subst table_rows.simps) (simp add: table_row_at_line [OF l] IH lines_text_Cons)
  then show ?case by blast
qed

lemma tableRegex_at_lines_more:
  assumes "\<forall>row \<in> set rows. table_line row" and "rows \<noteq> []"
  shows "\<exists>y rest. tableRegex_at i (lines_text rows @ post) =
     Some (\<lparr>index = i, matched = lines_text rows @ y\<rparr>, rest)"
proof -
  from assms(2) obtain row rs where rows: "rows = row # rs" by (cases rows) auto
  with assms(1) have l: "table_line row" and r: "\<forall>row \<in> set rs. table_line row" by simp_all
  from table_rows_lines_more [OF r, of post] obtain y rest where
    t: "table_rows (lines_text rs @ post) = (lines_text rs @ y, rest)" by blast
  have e: "lines_text rows @ post = row @ NL # (lines_text rs @ post)"
    by (simp add: rows lines_text_Cons)
  have "tableRegex_at i (lines_text rows @ post) =
     Some (\<lparr>index = i, matched = lines_text rows @ y\<rparr>, rest)"
    unfolding e tableRegex_at_def
    by (simp add: table_row_at_line [OF l] t rows lines_text_Cons)
  then show ?thesis by blast
qed

lemma lines_text_prefix:
  assumes "\<forall>row \<in> set rows. NL \<notin> set row"
    and "lines_text rows = z @ z'" and "z \<noteq> []" and "last z = NL"
  shows "\<exists>j. z = lines_text (take j rows) \<and> z' = lines_text (drop j rows)"
  using assms
proof (induction rows arbitrary: z)
  case Nil
  then show ?case by (simp add: lines_text_def)
next
  case (Cons r rs)
  from Cons.prems(1) have nr: "NL \<notin> set r" by simp
  from Cons.prems(2) have "z @ z' = (r @ [NL]) @ lines_text rs" by (simp add: lines_text_Cons)
  from append_eq_cases [OF this]
  consider us where "r @ [NL] = z @ us" "us @ lines_text rs = z'"
    | us where "(r @ [NL]) @ us = z" "lines_text rs = us @ z'"
    by metis
  then show ?case
  proof cases
    case 1
    have "us = []"
    proof (rule ccontr)
      assume "us \<noteq> []"
      then obtain u' x where us: "us = u' @ [x]" by (metis rev_exhaust)
      with 1(1) have "r @ [NL] = (z @ u') @ [x]" by simp
      then have "r = z @ u'" by (simp only: append1_eq_conv)
      with Cons.prems(3,4) nr show False by (metis last_in_set set_append UnCI)
    qed
    with 1 have "z = lines_text (take 1 (r # rs)) \<and> z' = lines_text (drop 1 (r # rs))"
      by (simp add: lines_text_def)
    then show ?thesis by blast
  next
    case 2
    show ?thesis
    proof (cases "us = []")
      case True
      with 2 have "z = lines_text (take 1 (r # rs)) \<and> z' = lines_text (drop 1 (r # rs))"
        by (simp add: lines_text_def)
      then show ?thesis by blast
    next
      case False
      with 2(1) Cons.prems(4) have "last us = NL" by auto
      with Cons.IH [of us] Cons.prems(1) 2(2) False obtain j where
        "us = lines_text (take j rs)" "z' = lines_text (drop j rs)" by auto
      with 2(1) have "z = lines_text (take (Suc j) (r # rs)) \<and> z' = lines_text (drop (Suc j) (r # rs))"
        by (simp add: lines_text_Cons)
      then show ?thesis by blast
    qed
  qed
qed

lemma tableRegex_at_covers:
  assumes "tableRegex_at i (pre @ lines_text rows @ post) = Some (m, rest)"
    and "length pre < length (matched m)"
    and "\<forall>row \<in> set rows. table_line row"
  shows "\<exists>y. matched m = pre @ lines_text rows @ y"
proof -
  from tableRegex_at_split [OF assms(1)] have
    e: "pre @ lines_text rows @ post = matched m @ rest" by simp
  from tableRegex_at_stop [OF assms(1)] have stop: "table_row_at rest = None"
    and last: "last (matched m) = NL" by simp_all
  from append_eq_longer [OF e assms(2)] obtain z where mz: "matched m = pre @ z"
    and zn: "z \<noteq> []" and z: "lines_text rows @ post = z @ rest"
    by blast
  from mz zn last have lz: "last z = NL" by simp
  from append_eq_cases [OF z]
  consider us where "z = lines_text rows @ us"
    | us where "z @ us = lines_text rows" "rest = us @ post"
    by metis
  then show ?thesis
  proof cases
    case 1
    with mz show ?thesis by simp
  next
    case 2
    from assms(3) have "\<forall>row \<in> set rows. NL \<notin> set row" by (auto dest: table_line_front)
    from lines_text_prefix [OF this 2(1) [symmetric] zn lz] obtain j where
      j: "z = lines_text (take j rows)" "us = lines_text (drop j rows)" by blast
    have "drop j rows = []"
    proof (rule ccontr)
      assume "drop j rows \<noteq> []"
      then obtain r rs where d: "drop j rows = r # rs" by (cases "drop j rows") auto
      then have "r \<in> set rows" by (metis in_set_dropD list.set_intros(1))
      with assms(3) have "table_line r" by simp
      from table_row_at_line [OF this, of "lines_text rs @ post"] 2(2) j(2) d stop
      show False by (simp add: lines_text_Cons)
    qed
    with j(2) have "us = []" by (simp add: lines_text_def)
    with 2(1) mz show ?thesis by simp
  qed
qed

lemma table_matches_cover_all:
  assumes "\<forall>row \<in> set rows. table_line row" and "rows \<noteq> []"
  shows "\<forall>i. \<exists>m \<in> set (table_matches i (pre @ lines_text rows @ post)).
           \<exists>x y. matched m = x @ lines_text rows @ y"
proof (induction pre rule: length_induct)
  case (1 pre)
  let ?run = "lines_text rows"
  show ?case
  proof
    fix i
    show "\<exists>m \<in> set (table_matches i (pre @ ?run @ post)). \<exists>x y. matched m = x @ ?run @ y"
    proof (cases pre)
      case Nil
      from assms(2) have "?run @ post \<noteq> []"
        by (cases rows) (simp_all add: lines_text_Cons)
      then obtain c cs where u: "?run @ post = c # cs" by (cases "?run @ post") auto
      from tableRegex_at_lines_more [OF assms, of i post] obtain y rest where
        "tableRegex_at i (?run @ post) = Some (\<lparr>index = i, matched = ?run @ y\<rparr>, rest)"
        by blast
      then have "tableRegex_exec i (?run @ post) = Some (\<lparr>index = i, matched = ?run @ y\<rparr>, rest)"
        unfolding u by simp
      then have "\<lparr>index = i, matched = ?run @ y\<rparr> \<in> set (table_matches i (?run @ post))"
        by (simp add: table_matches.simps [of i "?run @ post"])
      with Nil have mem: "\<lparr>index = i, matched = ?run @ y\<rparr>
          \<in> set (table_matches i (pre @ ?run @ post))" by simp
      have "\<exists>x y'. matched \<lparr>index = i, matched = ?run @ y\<rparr> = x @ ?run @ y'"
      proof (intro exI)
        show "matched \<lparr>index = i, matched = ?run @ y\<rparr> = [] @ ?run @ y" by simp
      qed
      with mem show ?thesis by blast
    next
      case (Cons c pre')
      show ?thesis
      proof (cases "tableRegex_at i (pre @ ?run @ post)")
        case None
        then have "tableRegex_exec i (pre @ ?run @ post) =
            tableRegex_exec (Suc i) (pre' @ ?run @ post)"
          using Cons by simp
        then have "table_matches i (pre @ ?run @ post) =
            table_matches (Suc i) (pre' @ ?run @ post)"
          by (simp add: table_matches.simps [of i "pre @ ?run @ post"]
              table_matches.simps [of "Suc i" "pre' @ ?run @ post"])
        moreover from Cons have "length pre' < length pre" by simp
        ultimately show ?thesis using 1 by auto
      next
        case (Some p)
        obtain m rest where p: "p = (m, rest)" by (cases p)
        from Some p have at: "tableRegex_at i (pre @ ?run @ post) = Some (m, rest)" by simp
        then have ex: "tableRegex_exec i (pre @ ?run @ post) = Some (m, rest)"
          using Cons by simp
        then have tm: "table_matches i (pre @ ?run @ post) =
            m # table_matches (index m + length (matched m)) rest"
          by (simp add: table_matches.simps [of i "pre @ ?run @ post"])
        show ?thesis
        proof (cases "length pre < length (matched m)")
          case True
          from tableRegex_at_covers [OF at True assms(1)] obtain y where
            "matched m = pre @ ?run @ y" by blast
          with tm show ?thesis by auto
        next
          case False
          from tableRegex_at_split [OF at] have e: "pre @ ?run @ post = matched m @ rest"
            and mn: "matched m \<noteq> []" by simp_all
          from False have "length (matched m) \<le> length pre" by simp
          from append_eq_shorter [OF e this] obtain pre'' where pp: "pre = matched m @ pre''"
            and r: "rest = pre'' @ ?run @ post"
            by blast
          from pp mn have "length pre'' < length pre" by simp
          with 1 r obtain m' where
            "m' \<in> set (table_matches (index m + length (matched m)) rest)"
            "\<exists>x y. matched m' = x @ ?run @ y" by blast
          with tm show ?thesis by auto
        qed
      qed
    qed
  qed
qed

section \<open>The artifact of a run of table lines\<close>

lemma js_split_nonempty: "js_split sep s \<noteq> []"
  by (induction s) (auto split: list.splits)

lemma js_split_append:
  "js_split sep (u @ sep # v) = js_split sep u @ js_split sep v"
proof (induction u)
  case Nil
  show ?case by simp
next
  case (Cons c u)
  obtain r rs where "js_split sep u = r # rs"
    using js_split_nonempty [of sep u] by (cases "js_split sep u") auto
  with Cons show ?case by simp
qed

lemma nonblank_first:
  assumes "\<not> isWhiteSpace c"
  shows "1 \<le> length (nonblank_rows (c # v))"
proof -
  from assms have "c \<noteq> NL" by (auto simp: isWhiteSpace_def)
  from js_split_hd [OF this, of v] obtain h t where h: "js_split NL (c # v) = (c # h) # t"
    by blast
  have "trim (c # h) \<noteq> []" by (rule trim_nonempty) (use assms in auto)
  with h show ?thesis by (simp add: nonblank_rows_def)
qed

lemma trim_keeps_middle:
  assumes "z \<noteq> []" and "\<not> isWhiteSpace (hd z)" and "\<not> isWhiteSpace (last z)"
  shows "\<exists>w. trim (z @ y) = z @ w"
proof -
  from assms(1,2) have 1: "dropWhile isWhiteSpace (z @ y) = z @ y"
    by (cases z) simp_all
  from assms(1,3) have h: "rev z \<noteq> []" "\<not> isWhiteSpace (hd (rev z))"
    by (simp_all add: hd_rev)
  then have d: "dropWhile isWhiteSpace (rev z) = rev z" by (cases "rev z") simp_all
  have "\<exists>v. dropWhile isWhiteSpace (rev y @ rev z) = v @ rev z"
  proof (cases "\<forall>u \<in> set (rev y). isWhiteSpace u")
    case True
    then have "dropWhile isWhiteSpace (rev y @ rev z) = [] @ rev z"
      by (simp add: dropWhile_append d)
    then show ?thesis by blast
  next
    case False
    then have "dropWhile isWhiteSpace (rev y @ rev z) = dropWhile isWhiteSpace (rev y) @ rev z"
      by (simp only: dropWhile_append if_False)
    then show ?thesis by blast
  qed
  then obtain v where "dropWhile isWhiteSpace (rev y @ rev z) = v @ rev z" by blast
  with 1 have "trim (z @ y) = z @ rev v" by (simp add: trim_def)
  then show ?thesis by blast
qed

lemma trim_prefix:
  assumes "s \<noteq> []" and "\<not> isWhiteSpace (hd s)"
  shows "\<exists>t. s = trim s @ t"
proof -
  from assms have d: "dropWhile isWhiteSpace s = s" by (cases s) simp_all
  have "rev (dropWhile isWhiteSpace (rev s)) @ rev (takeWhile isWhiteSpace (rev s)) =
      rev (takeWhile isWhiteSpace (rev s) @ dropWhile isWhiteSpace (rev s))"
    by (simp only: rev_append)
  also have "\<dots> = rev (rev s)" by (simp only: takeWhile_dropWhile_id)
  also have "\<dots> = s" by simp
  finally have "s = trim s @ rev (takeWhile isWhiteSpace (rev s))"
    by (simp add: trim_def d)
  then show ?thesis by blast
qed

lemma qualifies_cover:
  assumes "\<forall>row \<in> set rows. table_line row" and "2 \<le> length rows"
    and "hd t = PIPE" and "t = x @ lines_text rows @ y"
  shows "2 \<le> length (nonblank_rows (trim t))"
    and "\<exists>x' y'. trim t = x' @ trim (lines_text rows) @ y'"
proof -
  from assms(2) obtain r1 r2 rs where rows: "rows = r1 # r2 # rs"
    by (cases rows; simp; rename_tac l; case_tac l; simp)
  with assms(1) have "table_line r1" and "table_line r2" by simp_all
  with table_line_front obtain b1 b2 where r1: "r1 = PIPE # b1" and r2: "r2 = PIPE # b2"
    by blast
  have np: "\<not> isWhiteSpace PIPE" by (simp add: isWhiteSpace_def)
  have run: "lines_text rows = r1 @ NL # PIPE # (b2 @ NL # lines_text rs)"
    by (simp add: rows r2 lines_text_Cons)
  have hx: "x \<noteq> [] \<Longrightarrow> hd x = PIPE" using assms(3,4) by simp
  define X where "X = x @ r1"
  have X: "X \<noteq> []" "hd X = PIPE" using hx by (auto simp: X_def r1 hd_append)
  then obtain v where Xv: "X = PIPE # v" by (cases X) auto
  have t: "t = (X @ [NL]) @ PIPE # (b2 @ NL # lines_text rs @ y)"
    by (simp add: assms(4) run X_def)
  have "X @ [NL] \<noteq> []" and "\<not> isWhiteSpace (hd (X @ [NL]))"
    using X np by (simp_all add: hd_append)
  from trim_keeps_front [OF this np] obtain w where
    "trim ((X @ [NL]) @ PIPE # (b2 @ NL # lines_text rs @ y)) = (X @ [NL]) @ PIPE # w" by blast
  with t have tr: "trim t = X @ NL # (PIPE # w)" by simp
  have "nonblank_rows (trim t) = nonblank_rows X @ nonblank_rows (PIPE # w)"
    unfolding tr by (simp add: nonblank_rows_def js_split_append)
  moreover have "1 \<le> length (nonblank_rows X)" unfolding Xv using np by (rule nonblank_first)
  moreover have "1 \<le> length (nonblank_rows (PIPE # w))" using np by (rule nonblank_first)
  ultimately show "2 \<le> length (nonblank_rows (trim t))" by simp
  define run where "run = lines_text rows"
  have rn: "run \<noteq> []" and rh: "hd run = PIPE" by (simp_all add: run_def rows r1 lines_text_Cons)
  with np have "\<exists>x \<in> set run. \<not> isWhiteSpace x" by (cases run) auto
  then have tn: "trim run \<noteq> []" by (rule trim_nonempty)
  from trim_prefix [of run] rn rh np obtain t' where t': "run = trim run @ t'" by auto
  with tn rh have th: "hd (trim run) = PIPE" by (metis hd_append2)
  define z where "z = x @ trim run"
  have z: "z \<noteq> []" "\<not> isWhiteSpace (hd z)" "\<not> isWhiteSpace (last z)"
    using tn th hx np trim_last [OF tn] by (auto simp: z_def hd_append)
  have "t = z @ (t' @ y)" using t' by (simp add: assms(4) run_def [symmetric] z_def)
  with trim_keeps_middle [OF z, of "t' @ y"] obtain w' where "trim t = z @ w'" by auto
  then have "trim t = x @ trim (lines_text rows) @ w'" by (simp add: z_def run_def)
  then show "\<exists>x' y'. trim t = x' @ trim (lines_text rows) @ y'" by blast
qed

lemma run_extracted:
  assumes "\<forall>row \<in> set rows. table_line row" and "2 \<le> length rows"
  shows "\<exists>a \<in> set (artifacts (extractArtifacts (pre @ lines_text rows @ post))).
           atype a = Table \<and> (\<exists>x y. content a = x @ trim (lines_text rows) @ y)"
proof -
  from assms(2) have ne: "rows \<noteq> []" by auto
  from table_matches_cover_all [OF assms(1) ne, of pre post] obtain m x y where
    m: "m \<in> set (table_matches 0 (pre @ lines_text rows @ post))"
    and mm: "matched m = x @ lines_text rows @ y" by blast
  from table_matches_at_all m obtain j u rest where "tableRegex_at j u = Some (m, rest)"
    by blast
  from tableRegex_at_stop [OF this] have h: "hd (matched m) = PIPE" by simp
  from qualifies_cover [OF assms h mm] have q: "qualifies m"
    and c: "\<exists>x' y'. trim (matched m) = x' @ trim (lines_text rows) @ y'"
    by (simp_all add: qualifies_def)
  from m q have "table_artifact (trim (matched m))
      \<in> set (filter (\<lambda>a. atype a = Table)
           (artifacts (extractArtifacts (pre @ lines_text rows @ post))))"
    unfolding table_artifacts by auto
  then have "table_artifact (trim (matched m))
      \<in> set (artifacts (extractArtifacts (pre @ lines_text rows @ post)))"
    by simp
  moreover have "atype (table_artifact (trim (matched m))) = Table"
    by (simp add: table_artifact_def)
  moreover from c have "\<exists>x y. content (table_artifact (trim (matched m))) =
      x @ trim (lines_text rows) @ y"
    by (simp add: table_artifact_def)
  ultimately show ?thesis by blast
qed

text \<open>
  A carriage return before the second pipe: the first line is no row of the table
  expression, and the line after it alone is no table.
\<close>

lemma carriage_return_before_second_pipe:
  "\<not> table_line (''|a'' @ CHR 13 # ''b|'')
   \<and> artifacts (extractArtifacts (''|a'' @ CHR 13 # ''b|\<newline>|c|d|\<newline>'')) = []"
  by (simp add: eval_simps table_line_def isLineTerminator_def)

section \<open>Removing the placeholder lines a second time\<close>

lemma lt_ws: "isLineTerminator c \<Longrightarrow> isWhiteSpace c"
  by (auto simp: isLineTerminator_def isWhiteSpace_def)

lemma bracket_not_lt: "\<not> isLineTerminator (CHR '']'')"
  by (simp add: isLineTerminator_def)

lemma wse_None_iff:
  "ws_then_eol s = None \<longleftrightarrow>
     dropWhile isWhiteSpace s \<noteq> [] \<and> \<not> list_ex isLineTerminator (takeWhile isWhiteSpace s)"
  by (simp add: ws_then_eol_def Let_def)

lemma wse_nonws: "\<not> isWhiteSpace c \<Longrightarrow> ws_then_eol (c # x) = None"
  by (simp add: wse_None_iff)

lemma wse_lt: "isLineTerminator c \<Longrightarrow> ws_then_eol (c # x) \<noteq> None"
  by (simp add: wse_None_iff lt_ws)

lemma wse_ws:
  "isWhiteSpace c \<Longrightarrow> \<not> isLineTerminator c \<Longrightarrow>
   (ws_then_eol (c # x) = None) = (ws_then_eol x = None)"
  by (simp add: wse_None_iff)

lemma lazy_None_Cons:
  "lazy_until_bracket (c # cs) = None \<longleftrightarrow>
     (c = CHR '']'' \<longrightarrow> ws_then_eol cs = None)
     \<and> (isLineTerminator c \<or> lazy_until_bracket cs = None)"
  by (auto split: option.splits)

lemma pr_None_iff:
  "placeholderRegex_at s = None \<longleftrightarrow>
     (\<forall>cs. dropWhile isWhiteSpace s = CHR ''['' # cs \<longrightarrow> lazy_until_bracket cs = None)"
proof (cases "dropWhile isWhiteSpace s")
  case Nil
  show ?thesis unfolding placeholderRegex_at_def Nil by simp
next
  case (Cons c cs)
  show ?thesis unfolding placeholderRegex_at_def Cons by (auto split: option.splits)
qed

lemma pr_ws:
  "isWhiteSpace c \<Longrightarrow> (placeholderRegex_at (c # x) = None) = (placeholderRegex_at x = None)"
  by (simp add: pr_None_iff)

lemma pr_nonws:
  "\<not> isWhiteSpace c \<Longrightarrow>
   (placeholderRegex_at (c # x) = None) = (c = CHR ''['' \<longrightarrow> lazy_until_bracket x = None)"
  by (auto simp: pr_None_iff)

lemma pr_Nil: "placeholderRegex_at [] = None"
  by (simp add: placeholderRegex_at_def)

lemma strip_Nil: "strip_placeholders b [] = []"
  by (simp add: strip_placeholders.simps [of b "[]"] pr_Nil)

lemma strip_None:
  "placeholderRegex_at (c # cs) = None \<Longrightarrow>
   strip_placeholders b (c # cs) = c # strip_placeholders (isLineTerminator c) cs"
  by (simp add: strip_placeholders.simps [of b "c # cs"])

lemma strip_False:
  "strip_placeholders False (c # cs) = c # strip_placeholders (isLineTerminator c) cs"
  by (simp add: strip_placeholders.simps [of False "c # cs"])

lemma strip_Some:
  "placeholderRegex_at s = Some (m, rest) \<Longrightarrow>
   strip_placeholders True s = strip_placeholders (isLineTerminator (last m)) rest"
  by (simp add: strip_placeholders.simps [of True s])

lemma strip_True_False:
  "placeholderRegex_at z = None \<Longrightarrow> strip_placeholders True z = strip_placeholders False z"
  by (cases z) (simp_all add: strip_Nil strip_None strip_False)

lemma wse_strip:
  "ws_then_eol s = None \<Longrightarrow> ws_then_eol (strip_placeholders False s) = None"
proof (induction s)
  case Nil
  then show ?case by (simp add: strip_Nil)
next
  case (Cons c cs)
  show ?case
  proof (cases "isWhiteSpace c")
    case False
    then show ?thesis by (simp add: strip_False wse_nonws)
  next
    case True
    show ?thesis
    proof (cases "isLineTerminator c")
      case True
      with Cons.prems wse_lt show ?thesis by blast
    next
      case False
      with True Cons show ?thesis by (simp add: strip_False wse_ws)
    qed
  qed
qed

lemma lazy_strip:
  "lazy_until_bracket s = None \<Longrightarrow> lazy_until_bracket (strip_placeholders False s) = None"
proof (induction s)
  case Nil
  then show ?case by (simp add: strip_Nil)
next
  case (Cons c cs)
  from Cons.prems
  have pq: "(c = CHR '']'' \<longrightarrow> ws_then_eol cs = None)
     \<and> (isLineTerminator c \<or> lazy_until_bracket cs = None)"
    unfolding lazy_None_Cons .
  from pq have p: "c = CHR '']'' \<longrightarrow> ws_then_eol cs = None" by (rule conjunct1)
  from pq have q: "isLineTerminator c \<or> lazy_until_bracket cs = None" by (rule conjunct2)
  show ?case
  proof (cases "isLineTerminator c")
    case True
    then have "c \<noteq> CHR '']''" using bracket_not_lt by auto
    with True show ?thesis by (simp only: strip_False lazy_None_Cons) simp
  next
    case False
    with q have "lazy_until_bracket cs = None" by simp
    then have "lazy_until_bracket (strip_placeholders False cs) = None" by (rule Cons.IH)
    moreover from p have "c = CHR '']'' \<longrightarrow> ws_then_eol (strip_placeholders False cs) = None"
      by (auto intro: wse_strip)
    ultimately show ?thesis using False by (simp only: strip_False lazy_None_Cons) simp
  qed
qed

lemma drop_length_minus_one: "xs \<noteq> [] \<Longrightarrow> drop (length xs - 1) xs = [last xs]"
proof -
  assume "xs \<noteq> []"
  then have "xs = butlast xs @ [last xs]" by simp
  then have "drop (length (butlast xs)) xs = drop (length (butlast xs)) (butlast xs @ [last xs])"
    by simp
  then show ?thesis by simp
qed

lemma wse_rest:
  assumes "ws_then_eol s = Some (w, rest)"
  shows "rest = [] \<or> isLineTerminator (hd rest)"
proof (cases "dropWhile isWhiteSpace s = []")
  case True
  with assms show ?thesis by (simp add: ws_then_eol_def Let_def)
next
  case False
  define w0 where "w0 = takeWhile isWhiteSpace s"
  define tw where "tw = takeWhile (\<lambda>x. \<not> isLineTerminator x) (rev w0)"
  define dw where "dw = dropWhile (\<lambda>x. \<not> isLineTerminator x) (rev w0)"
  define k where "k = length w0 - length tw - 1"
  from assms False have ex: "list_ex isLineTerminator w0" and rest: "rest = drop k s"
    by (auto simp: ws_then_eol_def Let_def w0_def tw_def k_def split: if_splits)
  from ex have "\<exists>x \<in> set (rev w0). \<not> \<not> isLineTerminator x" by (simp add: list_ex_iff)
  then have dn: "dw \<noteq> []" unfolding dw_def by (simp add: dropWhile_eq_Nil_conv)
  then have "\<not> \<not> isLineTerminator (hd dw)" unfolding dw_def by (rule hd_dropWhile)
  then have lt: "isLineTerminator (hd dw)" by simp
  have "rev w0 = tw @ dw" by (simp add: tw_def dw_def)
  then have "rev (rev w0) = rev (tw @ dw)" by (rule arg_cong)
  then have w0: "w0 = rev dw @ rev tw" by simp
  then have "length w0 = length dw + length tw" by simp
  then have k: "k = length (rev dw) - 1" by (simp add: k_def)
  have "s = w0 @ dropWhile isWhiteSpace s" by (simp add: w0_def)
  then have s: "s = (rev dw @ rev tw) @ dropWhile isWhiteSpace s"
    by (simp only: w0 [symmetric])
  from dn have rn: "rev dw \<noteq> []" by simp
  have le: "length (rev dw) - 1 \<le> length (rev dw)" by simp
  have "drop k s = drop k ((rev dw @ rev tw) @ dropWhile isWhiteSpace s)"
    using s by simp
  also have "\<dots> = drop k (rev dw) @ rev tw @ dropWhile isWhiteSpace s"
    using le unfolding k by simp
  also have "drop k (rev dw) = [last (rev dw)]"
    unfolding k using rn by (rule drop_length_minus_one)
  finally have "drop k s = hd dw # rev tw @ dropWhile isWhiteSpace s"
    using dn by (simp add: last_rev)
  with rest lt show ?thesis by simp
qed

lemma lazy_rest:
  "lazy_until_bracket s = Some (m, rest) \<Longrightarrow> rest = [] \<or> isLineTerminator (hd rest)"
proof (induction s arbitrary: m rest)
  case Nil
  then show ?case by simp
next
  case (Cons c cs)
  show ?case
  proof (cases "if c = CHR '']'' then ws_then_eol cs else None")
    case (Some p)
    obtain w r where p: "p = (w, r)" by (cases p)
    from Some p have "ws_then_eol cs = Some (w, r)" by (simp split: if_splits)
    from wse_rest [OF this] have "r = [] \<or> isLineTerminator (hd r)" .
    moreover from Cons.prems Some p have "rest = r" by simp
    ultimately show ?thesis by simp
  next
    case None
    with Cons.prems obtain m' where "lazy_until_bracket cs = Some (m', rest)"
      by (auto split: if_splits option.splits)
    then show ?thesis by (rule Cons.IH)
  qed
qed

lemma pr_rest:
  assumes "placeholderRegex_at s = Some (m, rest)"
  shows "rest = [] \<or> isLineTerminator (hd rest)"
proof -
  from assms obtain cs m' where "lazy_until_bracket cs = Some (m', rest)"
    by (auto simp: placeholderRegex_at_def split: list.splits if_splits option.splits)
  then show ?thesis by (rule lazy_rest)
qed

lemma strip_no_match_all:
  "\<forall>bol. (bol \<or> placeholderRegex_at s = None)
     \<longrightarrow> placeholderRegex_at (strip_placeholders bol s) = None"
proof (induction s rule: length_induct)
  case (1 s)
  show ?case
  proof (intro allI impI)
    fix bol
    assume a: "bol \<or> placeholderRegex_at s = None"
    show "placeholderRegex_at (strip_placeholders bol s) = None"
    proof (cases "placeholderRegex_at s")
      case None
      show ?thesis
      proof (cases s)
        case Nil
        then show ?thesis by (simp add: strip_Nil pr_Nil)
      next
        case (Cons c cs)
        from None Cons have st: "strip_placeholders bol s =
            c # strip_placeholders (isLineTerminator c) cs"
          by (simp add: strip_None)
        from Cons have "length cs < length s" by simp
        with 1 have "\<forall>bol. (bol \<or> placeholderRegex_at cs = None)
            \<longrightarrow> placeholderRegex_at (strip_placeholders bol cs) = None"
          by blast
        then have IH: "\<And>b. b \<or> placeholderRegex_at cs = None \<Longrightarrow>
            placeholderRegex_at (strip_placeholders b cs) = None"
          by blast
        show ?thesis
        proof (cases "isWhiteSpace c")
          case True
          show ?thesis
          proof (cases "isLineTerminator c")
            case lt: True
            have "placeholderRegex_at (strip_placeholders True cs) = None" by (rule IH) simp
            with True lt show ?thesis unfolding st by (simp add: pr_ws)
          next
            case nlt: False
            from None Cons True have "placeholderRegex_at cs = None" by (simp add: pr_ws)
            then have "placeholderRegex_at (strip_placeholders False cs) = None"
              by (intro IH) simp
            with True nlt show ?thesis unfolding st by (simp add: pr_ws)
          qed
        next
          case False
          then have nlt: "\<not> isLineTerminator c" using lt_ws by blast
          from None Cons False have "c = CHR ''['' \<longrightarrow> lazy_until_bracket cs = None"
            by (simp add: pr_nonws)
          then have "c = CHR ''['' \<longrightarrow> lazy_until_bracket (strip_placeholders False cs) = None"
            by (auto intro: lazy_strip)
          with False nlt show ?thesis unfolding st by (simp add: pr_nonws)
        qed
      qed
    next
      case (Some p)
      obtain m rest where p: "p = (m, rest)" by (cases p)
      from Some p have pm: "placeholderRegex_at s = Some (m, rest)" by simp
      with a have bol by simp
      from pm have l: "length rest < length s" by (rule placeholderRegex_at_shorter)
      with 1 have "\<forall>bol. (bol \<or> placeholderRegex_at rest = None)
          \<longrightarrow> placeholderRegex_at (strip_placeholders bol rest) = None"
        by blast
      then have IH: "\<And>b. b \<or> placeholderRegex_at rest = None \<Longrightarrow>
          placeholderRegex_at (strip_placeholders b rest) = None"
        by blast
      have st: "strip_placeholders bol s = strip_placeholders (isLineTerminator (last m)) rest"
        using \<open>bol\<close> pm by (simp add: strip_Some)
      show ?thesis
      proof (cases "isLineTerminator (last m)")
        case True
        then show ?thesis unfolding st by (simp add: IH)
      next
        case False
        show ?thesis
        proof (cases rest)
          case Nil
          then show ?thesis unfolding st by (simp add: strip_Nil pr_Nil)
        next
          case (Cons c rest')
          with pr_rest [OF pm] have lt: "isLineTerminator c" by simp
          from Cons l have "length rest' < length s" by simp
          with 1 have "\<forall>bol. (bol \<or> placeholderRegex_at rest' = None)
              \<longrightarrow> placeholderRegex_at (strip_placeholders bol rest') = None"
            by blast
          then have "placeholderRegex_at (strip_placeholders True rest') = None" by blast
          with lt False Cons show ?thesis
            unfolding st by (simp add: strip_False pr_ws lt_ws)
        qed
      qed
    qed
  qed
qed

lemma strip_no_match: "placeholderRegex_at (strip_placeholders True s) = None"
  using strip_no_match_all by blast

lemma strip_strip_all:
  "\<forall>bol. strip_placeholders bol (strip_placeholders bol s) = strip_placeholders bol s"
proof (induction s rule: length_induct)
  case (1 s)
  show ?case
  proof
    fix bol
    show "strip_placeholders bol (strip_placeholders bol s) = strip_placeholders bol s"
    proof (cases "bol \<and> placeholderRegex_at s \<noteq> None")
      case True
      then obtain m rest where pm: "placeholderRegex_at s = Some (m, rest)" and bol: bol
        by auto
      define z where "z = strip_placeholders (isLineTerminator (last m)) rest"
      have st: "strip_placeholders bol s = z" using bol pm by (simp add: strip_Some z_def)
      from pm have "length rest < length s" by (rule placeholderRegex_at_shorter)
      with 1 have "\<forall>bol. strip_placeholders bol (strip_placeholders bol rest) =
          strip_placeholders bol rest" by blast
      then have IH: "strip_placeholders (isLineTerminator (last m)) z = z"
        unfolding z_def by blast
      have nz: "placeholderRegex_at z = None"
        using strip_no_match [of s] st bol by simp
      have "strip_placeholders True z = z"
      proof (cases "isLineTerminator (last m)")
        case True
        with IH show ?thesis by simp
      next
        case False
        with IH strip_True_False [OF nz] show ?thesis by simp
      qed
      with bol show ?thesis unfolding st by simp
    next
      case False
      show ?thesis
      proof (cases s)
        case Nil
        then show ?thesis by (simp add: strip_Nil)
      next
        case (Cons c cs)
        define z' where "z' = strip_placeholders (isLineTerminator c) cs"
        from Cons have "length cs < length s" by simp
        with 1 have "\<forall>bol. strip_placeholders bol (strip_placeholders bol cs) =
            strip_placeholders bol cs" by blast
        then have IH: "strip_placeholders (isLineTerminator c) z' = z'"
          unfolding z'_def by blast
        show ?thesis
        proof (cases bol)
          case True
          with False have n: "placeholderRegex_at s = None" by blast
          with Cons have st: "strip_placeholders bol s = c # z'"
            by (simp add: strip_None z'_def)
          from strip_no_match_all have "bol \<or> placeholderRegex_at s = None
              \<longrightarrow> placeholderRegex_at (strip_placeholders bol s) = None" by blast
          with n st have "placeholderRegex_at (c # z') = None" by simp
          then have "strip_placeholders bol (c # z') = c # strip_placeholders (isLineTerminator c) z'"
            by (rule strip_None)
          with IH show ?thesis unfolding st by simp
        next
          case nb: False
          with Cons have st: "strip_placeholders bol s = c # z'"
            by (simp add: strip_False z'_def)
          from nb IH show ?thesis unfolding st by (simp add: strip_False)
        qed
      qed
    qed
  qed
qed

lemma strip_strip:
  "strip_placeholders True (strip_placeholders True s) = strip_placeholders True s"
  using strip_strip_all by blast

section \<open>The remainder holds no placeholder line\<close>

lemma strip_length_all: "\<forall>bol. length (strip_placeholders bol s) \<le> length s"
proof (induction s rule: length_induct)
  case (1 s)
  show ?case
  proof
    fix bol
    show "length (strip_placeholders bol s) \<le> length s"
    proof (cases "if bol then placeholderRegex_at s else None")
      case (Some p)
      obtain m rest where p: "p = (m, rest)" by (cases p)
      from Some p have bol: bol and pm: "placeholderRegex_at s = Some (m, rest)"
        by (simp_all split: if_splits)
      from pm have l: "length rest < length s" by (rule placeholderRegex_at_shorter)
      with 1 have "\<forall>b. length (strip_placeholders b rest) \<le> length rest" by blast
      then have "length (strip_placeholders (isLineTerminator (last m)) rest) \<le> length rest"
        by blast
      with l show ?thesis using bol pm by (simp add: strip_Some)
    next
      case None
      show ?thesis
      proof (cases s)
        case Nil
        then show ?thesis by (simp add: strip_Nil)
      next
        case (Cons c cs)
        have "strip_placeholders bol s = c # strip_placeholders (isLineTerminator c) cs"
          using None unfolding Cons by (simp add: strip_placeholders.simps [of bol "c # cs"])
        moreover from Cons have "length cs < length s" by simp
        with 1 have "\<forall>b. length (strip_placeholders b cs) \<le> length cs" by blast
        then have "length (strip_placeholders (isLineTerminator c) cs) \<le> length cs" by blast
        ultimately show ?thesis using Cons by simp
      qed
    qed
  qed
qed

lemma strip_length: "length (strip_placeholders bol s) \<le> length s"
  using strip_length_all by blast

lemma strip_fixed_cases:
  assumes "strip_placeholders b s = s"
  shows "(if b then placeholderRegex_at s else None) = None"
proof (rule ccontr)
  assume "(if b then placeholderRegex_at s else None) \<noteq> None"
  then obtain m rest where b: b and pm: "placeholderRegex_at s = Some (m, rest)"
    by (auto split: if_splits)
  from pm have "length rest < length s" by (rule placeholderRegex_at_shorter)
  moreover have "length (strip_placeholders (isLineTerminator (last m)) rest) \<le> length rest"
    by (rule strip_length)
  moreover from b pm
  have "strip_placeholders b s = strip_placeholders (isLineTerminator (last m)) rest"
    by (simp add: strip_Some)
  ultimately have "length (strip_placeholders b s) < length s" by simp
  with assms show False by simp
qed

lemma strip_fixed_no_match:
  "strip_placeholders True s = s \<Longrightarrow> placeholderRegex_at s = None"
  using strip_fixed_cases [of True s] by simp

lemma strip_fixed_tl:
  assumes "strip_placeholders b (c # x) = c # x"
  shows "strip_placeholders (isLineTerminator c) x = x"
proof -
  from strip_fixed_cases [OF assms]
  have "strip_placeholders b (c # x) = c # strip_placeholders (isLineTerminator c) x"
    by (simp add: strip_placeholders.simps [of b "c # x"])
  with assms show ?thesis by simp
qed

lemma strip_fixed_True:
  "strip_placeholders b s = s \<Longrightarrow> placeholderRegex_at s = None \<Longrightarrow>
   strip_placeholders True s = s"
  by (cases b) (simp_all add: strip_True_False)

lemma strip_fixed_dropWhile:
  "strip_placeholders True s = s \<Longrightarrow>
   strip_placeholders True (dropWhile isWhiteSpace s) = dropWhile isWhiteSpace s"
proof (induction s)
  case Nil
  then show ?case by simp
next
  case (Cons c x)
  show ?case
  proof (cases "isWhiteSpace c")
    case False
    with Cons.prems show ?thesis by simp
  next
    case True
    from Cons.prems have "placeholderRegex_at (c # x) = None" by (rule strip_fixed_no_match)
    with True have n: "placeholderRegex_at x = None" by (simp add: pr_ws)
    from Cons.prems have "strip_placeholders (isLineTerminator c) x = x"
      by (rule strip_fixed_tl)
    then have "strip_placeholders True x = x" using n by (rule strip_fixed_True)
    then have "strip_placeholders True (dropWhile isWhiteSpace x) = dropWhile isWhiteSpace x"
      by (rule Cons.IH)
    with True show ?thesis by simp
  qed
qed

lemma wse_append_ws:
  assumes w: "\<forall>c \<in> set w. isWhiteSpace c" and n: "ws_then_eol (s @ w) = None"
  shows "ws_then_eol s = None"
proof -
  from n have dl: "dropWhile isWhiteSpace (s @ w) \<noteq> []
      \<and> \<not> list_ex isLineTerminator (takeWhile isWhiteSpace (s @ w))"
    unfolding wse_None_iff .
  from dl have d: "dropWhile isWhiteSpace (s @ w) \<noteq> []" by (rule conjunct1)
  from dl have l: "\<not> list_ex isLineTerminator (takeWhile isWhiteSpace (s @ w))"
    by (rule conjunct2)
  have "\<exists>x \<in> set s. \<not> isWhiteSpace x"
  proof (rule ccontr)
    assume "\<not> (\<exists>x \<in> set s. \<not> isWhiteSpace x)"
    with w have "\<forall>x \<in> set (s @ w). isWhiteSpace x" by auto
    then have "dropWhile isWhiteSpace (s @ w) = []" by (simp only: dropWhile_eq_Nil_conv)
    with d show False by simp
  qed
  then obtain x where x: "x \<in> set s" "\<not> isWhiteSpace x" by blast
  then have "takeWhile isWhiteSpace (s @ w) = takeWhile isWhiteSpace s"
    by (rule takeWhile_append1)
  with l have "\<not> list_ex isLineTerminator (takeWhile isWhiteSpace s)" by simp
  moreover from x have "dropWhile isWhiteSpace s \<noteq> []"
    by (auto simp only: dropWhile_eq_Nil_conv)
  ultimately show ?thesis by (simp only: wse_None_iff simp_thms)
qed

lemma lazy_append_ws:
  assumes w: "\<forall>c \<in> set w. isWhiteSpace c"
  shows "lazy_until_bracket (s @ w) = None \<Longrightarrow> lazy_until_bracket s = None"
proof (induction s)
  case Nil
  show ?case by simp
next
  case (Cons c cs)
  from Cons.prems have "lazy_until_bracket (c # (cs @ w)) = None" by (simp only: append_Cons)
  then have pq: "(c = CHR '']'' \<longrightarrow> ws_then_eol (cs @ w) = None)
      \<and> (isLineTerminator c \<or> lazy_until_bracket (cs @ w) = None)"
    unfolding lazy_None_Cons .
  from pq have "c = CHR '']'' \<longrightarrow> ws_then_eol cs = None"
    using wse_append_ws [OF w] by blast
  moreover from pq have "isLineTerminator c \<or> lazy_until_bracket (cs @ w) = None"
    by (rule conjunct2)
  then have "isLineTerminator c \<or> lazy_until_bracket cs = None"
  proof
    assume "isLineTerminator c"
    then show ?thesis ..
  next
    assume "lazy_until_bracket (cs @ w) = None"
    then have "lazy_until_bracket cs = None" by (rule Cons.IH)
    then show ?thesis ..
  qed
  ultimately show ?case unfolding lazy_None_Cons by (rule conjI)
qed

lemma pr_append_ws:
  assumes w: "\<forall>c \<in> set w. isWhiteSpace c" and n: "placeholderRegex_at (s @ w) = None"
  shows "placeholderRegex_at s = None"
  unfolding pr_None_iff
proof (intro allI impI)
  fix cs
  assume d: "dropWhile isWhiteSpace s = CHR ''['' # cs"
  then have "CHR ''['' \<in> set (dropWhile isWhiteSpace s)" by simp
  then have "CHR ''['' \<in> set s" by (rule set_dropWhileD)
  moreover have "\<not> isWhiteSpace (CHR ''['')" by (simp add: isWhiteSpace_def)
  ultimately have "dropWhile isWhiteSpace (s @ w) = dropWhile isWhiteSpace s @ w"
    by (rule dropWhile_append1)
  with d have "dropWhile isWhiteSpace (s @ w) = CHR ''['' # (cs @ w)" by simp
  with n have "lazy_until_bracket (cs @ w) = None" unfolding pr_None_iff by blast
  then show "lazy_until_bracket cs = None" by (rule lazy_append_ws [OF w])
qed

lemma strip_fixed_append_ws:
  assumes w: "\<forall>c \<in> set w. isWhiteSpace c"
  shows "strip_placeholders b (u @ w) = u @ w \<Longrightarrow> strip_placeholders b u = u"
proof (induction u arbitrary: b)
  case Nil
  show ?case by (simp add: strip_Nil)
next
  case (Cons c u)
  from Cons.prems have f: "strip_placeholders b (c # (u @ w)) = c # (u @ w)" by simp
  from strip_fixed_tl [OF f]
  have "strip_placeholders (isLineTerminator c) u = u" by (rule Cons.IH)
  moreover have "(if b then placeholderRegex_at (c # u) else None) = None"
  proof (cases b)
    case True
    with strip_fixed_cases [OF f] have "placeholderRegex_at ((c # u) @ w) = None" by simp
    with w have "placeholderRegex_at (c # u) = None" by (rule pr_append_ws)
    with True show ?thesis by simp
  next
    case False
    then show ?thesis by simp
  qed
  ultimately show ?case by (simp add: strip_placeholders.simps [of b "c # u"])
qed

lemma strip_fixed_trim:
  assumes "strip_placeholders True z = z"
  shows "strip_placeholders True (trim z) = trim z"
proof -
  define y where "y = dropWhile isWhiteSpace z"
  define w where "w = rev (takeWhile isWhiteSpace (rev y))"
  from assms have fy: "strip_placeholders True y = y"
    unfolding y_def by (rule strip_fixed_dropWhile)
  have "trim z @ w = rev (takeWhile isWhiteSpace (rev y) @ dropWhile isWhiteSpace (rev y))"
    unfolding trim_def y_def w_def by (simp only: rev_append)
  also have "\<dots> = y" by simp
  finally have y: "y = trim z @ w" by simp
  have "\<forall>c \<in> set w. isWhiteSpace c" unfolding w_def by (auto dest: set_takeWhileD)
  moreover from fy y have "strip_placeholders True (trim z @ w) = trim z @ w" by simp
  ultimately show ?thesis by (rule strip_fixed_append_ws)
qed

lemma cleanup_stripped: "strip_placeholders True (cleanup s) = cleanup s"
  unfolding cleanup_def by (rule strip_fixed_trim) (rule strip_strip)

lemma fallback_stripped:
  "strip_placeholders True remaining = remaining \<Longrightarrow>
   strip_placeholders True (fallback as remaining) = fallback as remaining"
  by (simp add: fallback_def strip_placeholders_fixed)

lemma remainder_stripped:
  "strip_placeholders True (conversationalContent (extractArtifacts s)) =
     conversationalContent (extractArtifacts s)"
  by (simp add: extractArtifacts_def Let_def fallback_stripped cleanup_stripped)

lemma trim_length: "length (trim s) \<le> length s"
proof -
  have "length (dropWhile isWhiteSpace (rev (dropWhile isWhiteSpace s)))
      \<le> length (rev (dropWhile isWhiteSpace s))" by (rule length_dropWhile_le)
  also have "\<dots> = length (dropWhile isWhiteSpace s)" by simp
  also have "\<dots> \<le> length s" by (rule length_dropWhile_le)
  finally show ?thesis by (simp add: trim_def)
qed

lemma collapse_length: "length (collapse_newlines s) \<le> length s"
proof (induction s rule: length_induct)
  case (1 s)
  define n where "n = length (takeWhile (\<lambda>x. x = NL) s)"
  have n: "n \<le> length s" unfolding n_def by (rule length_takeWhile_le)
  show ?case
  proof (cases "3 \<le> n")
    case True
    with n have "length (drop n s) < length s" by simp
    with 1 have "length (collapse_newlines (drop n s)) \<le> length (drop n s)" by blast
    moreover from True have "collapse_newlines s = [NL, NL] @ collapse_newlines (drop n s)"
      by (subst collapse_newlines.simps) (simp add: Let_def n_def)
    ultimately show ?thesis using True n by simp
  next
    case False
    show ?thesis
    proof (cases s)
      case Nil
      then show ?thesis by (simp add: collapse_newlines.simps [of "[]"])
    next
      case (Cons c cs)
      with False have "collapse_newlines s = c # collapse_newlines cs"
        unfolding n_def by (subst collapse_newlines.simps) (simp add: Let_def)
      moreover from Cons have "length cs < length s" by simp
      with 1 have "length (collapse_newlines cs) \<le> length cs" by blast
      ultimately show ?thesis using Cons by simp
    qed
  qed
qed

lemma collapse_shorter:
  "\<exists>a b. s = a @ [NL, NL, NL] @ b \<Longrightarrow> length (collapse_newlines s) < length s"
proof (induction s rule: length_induct)
  case (1 s)
  from 1(2) obtain a b where s: "s = a @ [NL, NL, NL] @ b" by blast
  define n where "n = length (takeWhile (\<lambda>x. x = NL) s)"
  have n: "n \<le> length s" unfolding n_def by (rule length_takeWhile_le)
  show ?case
  proof (cases "3 \<le> n")
    case True
    have "length (collapse_newlines (drop n s)) \<le> length (drop n s)" by (rule collapse_length)
    moreover from True have "collapse_newlines s = [NL, NL] @ collapse_newlines (drop n s)"
      by (subst collapse_newlines.simps) (simp add: Let_def n_def)
    ultimately show ?thesis using True n by simp
  next
    case False
    have "a \<noteq> []"
    proof
      assume "a = []"
      with s have "3 \<le> n" by (simp add: n_def)
      with False show False ..
    qed
    then obtain c a' where a: "a = c # a'" by (cases a) auto
    with s have cs: "s = c # (a' @ [NL, NL, NL] @ b)" by simp
    with False have "collapse_newlines s = c # collapse_newlines (a' @ [NL, NL, NL] @ b)"
      unfolding n_def by (subst collapse_newlines.simps) (simp add: Let_def)
    moreover from cs have "length (a' @ [NL, NL, NL] @ b) < length s" by simp
    with 1(1) have "length (collapse_newlines (a' @ [NL, NL, NL] @ b))
        < length (a' @ [NL, NL, NL] @ b)" by blast
    ultimately show ?thesis using cs by simp
  qed
qed

lemma cleanup_shorter:
  assumes "\<exists>a b. s = a @ [NL, NL, NL] @ b"
  shows "length (cleanup s) < length s"
proof -
  have "length (cleanup s) \<le> length (strip_placeholders True (collapse_newlines s))"
    unfolding cleanup_def by (rule trim_length)
  also have "\<dots> \<le> length (collapse_newlines s)" by (rule strip_length)
  also from assms have "\<dots> < length s" by (rule collapse_shorter)
  finally show ?thesis .
qed

lemma cleanup_remainder_iff:
  assumes "r = conversationalContent (extractArtifacts s)"
  shows "cleanup r = r \<longleftrightarrow> \<not> (\<exists>a b. r = a @ [NL, NL, NL] @ b)"
proof
  assume "cleanup r = r"
  then have "\<not> length (cleanup r) < length r" by simp
  with cleanup_shorter show "\<not> (\<exists>a b. r = a @ [NL, NL, NL] @ b)" by blast
next
  assume "\<not> (\<exists>a b. r = a @ [NL, NL, NL] @ b)"
  then have "collapse_newlines r = r" by (rule collapse_newlines_fixed)
  moreover have "strip_placeholders True r = r" unfolding assms by (rule remainder_stripped)
  moreover have "trim r = r" unfolding assms by (rule remainder_trimmed)
  ultimately show "cleanup r = r" by (simp add: cleanup_def)
qed

lemma extract_no_triggers:
  assumes c: "codeBlockRegex_exec 0 r = None"
    and t: "\<forall>m \<in> set (table_matches 0 r). \<not> qualifies m"
    and d: "docRegex_exec 0 r = None"
  shows "extractArtifacts r = \<lparr>artifacts = [], conversationalContent = cleanup r\<rparr>"
proof -
  from c have "code_matches 0 r = []" by (simp add: code_matches.simps [of 0 r])
  moreover from t have "filter qualifies (table_matches 0 r) = []"
    by (simp only: filter_empty_conv)
  ultimately have "artifacts (extractArtifacts r) = []"
    using d by (simp add: extractArtifacts_artifacts)
  then show ?thesis by (rule extract_no_artifacts)
qed

section \<open>The claims\<close>

text \<open>
  C1, as stated, fails: the table pass runs over the original text. The fenced block
  below spans the whole text (index 0, 20 code units) and is extracted by the code pass;
  the table expression still matches at index 4, inside the block, and gives a table
  artifact.
\<close>

theorem C1_counterexample:
  "code_matches 0 ''```\<newline>|a|b|\<newline>|c|d|\<newline>```'' =
     [\<lparr>c_index = 0, c_all = ''```\<newline>|a|b|\<newline>|c|d|\<newline>```'', c_lang = None,
       c_inner = ''|a|b|\<newline>|c|d|\<newline>''\<rparr>]
   \<and> table_matches 0 ''```\<newline>|a|b|\<newline>|c|d|\<newline>```'' =
     [\<lparr>index = 4, matched = ''|a|b|\<newline>|c|d|\<newline>''\<rparr>]
   \<and> artifacts (extractArtifacts ''```\<newline>|a|b|\<newline>|c|d|\<newline>```'') =
     [\<lparr>atype = Code, language = Some ''text'', content = ''|a|b|\<newline>|c|d|'',
       title = ''Code Block''\<rparr>,
      \<lparr>atype = Table, language = None, content = ''|a|b|\<newline>|c|d|'',
       title = ''Data Table''\<rparr>]"
  by (simp add: eval_simps)

text \<open>
  C1, amended. For every input text, each of the three passes runs its expression over
  the original text, and only the replacements are made in the working copy. The
  artifacts are those of every match of the code expression in the original text, then
  those of every match of the table expression in the original text that has two rows,
  then that of the match of the document expression in the original text, whatever the
  earlier passes removed.
\<close>

theorem C1_passes_scan_original_text:
  "artifacts (extractArtifacts text) =
     map code_artifact (code_matches 0 text)
     @ map (\<lambda>m. table_artifact (trim (matched m))) (filter qualifies (table_matches 0 text))
     @ (case docRegex_exec 0 text of None \<Rightarrow> [] | Some m \<Rightarrow> [document_artifact (matched m)])"
  by (rule extractArtifacts_artifacts)

theorem C1_passes_scan_original_text_witness:
  "artifacts (extractArtifacts ''```\<newline>|a|b|\<newline>|c|d|\<newline>```'') =
     [code_artifact \<lparr>c_index = 0, c_all = ''```\<newline>|a|b|\<newline>|c|d|\<newline>```'',
        c_lang = None, c_inner = ''|a|b|\<newline>|c|d|\<newline>''\<rparr>,
      table_artifact ''|a|b|\<newline>|c|d|'']"
proof -
  have c: "code_matches 0 ''```\<newline>|a|b|\<newline>|c|d|\<newline>```'' =
     [\<lparr>c_index = 0, c_all = ''```\<newline>|a|b|\<newline>|c|d|\<newline>```'', c_lang = None,
       c_inner = ''|a|b|\<newline>|c|d|\<newline>''\<rparr>]"
    by (simp add: eval_simps)
  have t: "table_matches 0 ''```\<newline>|a|b|\<newline>|c|d|\<newline>```'' =
     [\<lparr>index = 4, matched = ''|a|b|\<newline>|c|d|\<newline>''\<rparr>]"
    by (simp add: eval_simps)
  have q: "qualifies \<lparr>index = 4, matched = ''|a|b|\<newline>|c|d|\<newline>''\<rparr>"
    by (simp add: eval_simps)
  have r: "trim ''|a|b|\<newline>|c|d|\<newline>'' = ''|a|b|\<newline>|c|d|''"
    by (simp add: eval_simps)
  have d: "docRegex_exec 0 ''```\<newline>|a|b|\<newline>|c|d|\<newline>```'' = None"
    by (simp add: eval_simps)
  show ?thesis
    using C1_passes_scan_original_text [of "''```\<newline>|a|b|\<newline>|c|d|\<newline>```''"]
    by (simp only: c t q r d list.map filter.simps if_True option.case span_match.simps append.simps)
qed

text \<open>
  C2, as stated, fails: after the third fragment the remainder is the text that stands
  before the table, \<^verbatim>\<open>Here is a table:\<close>, not the sentence for tables, which the
  extractor writes only when nothing else remains.
\<close>

theorem C2_counterexample:
  "map msg_conversationalContent
     (messages
        (onmessage \<lparr>now = 3, nowISO = ''t3''\<rparr>
           (fragment_event ''|A|B|\<newline>|-|-|\<newline>|1|2|\<newline>'')
           (onmessage \<lparr>now = 2, nowISO = ''t2''\<rparr> (fragment_event ''able:\<newline>\<newline>'')
              (onmessage \<lparr>now = 1, nowISO = ''t1''\<rparr> (fragment_event ''Here is a t'')
                 \<lparr>messages = [], isLoading = True\<rparr>))))
   = [Some ''Here is a table:'']
   \<and> ''Here is a table:'' \<noteq> ''I've created a table with the requested information.''"
  by (simp add: three_fragments)

text \<open>
  C2, amended. Feeding the three fragments in order, starting where no streaming bot
  message is open, yields one bot message, still streaming, whose content is the three
  fragments joined, whose artifacts list holds exactly one table artifact, of the three
  lines \<^verbatim>\<open>|A|B|\<close>, \<^verbatim>\<open>|-|-|\<close>, \<^verbatim>\<open>|1|2|\<close> (which the formatter reads as a header,
  a separator and one body row), and whose conversationalContent is \<^verbatim>\<open>Here is a table:\<close>.
\<close>

theorem C2_streaming_merge:
  assumes "\<not> (ms \<noteq> [] \<and> isBot (last ms) \<and> isStreaming (last ms))"
  shows "messages
       (onmessage c3 (fragment_event ''|A|B|\<newline>|-|-|\<newline>|1|2|\<newline>'')
          (onmessage c2 (fragment_event ''able:\<newline>\<newline>'')
             (onmessage c1 (fragment_event ''Here is a t'')
                \<lparr>messages = ms, isLoading = l\<rparr>)))
     = ms @
       [\<lparr>msg_id = now c1,
         msg_content = ''Here is a table:\<newline>\<newline>|A|B|\<newline>|-|-|\<newline>|1|2|\<newline>'',
         msg_conversationalContent = Some ''Here is a table:'',
         msg_artifacts = Some [table_artifact ''|A|B|\<newline>|-|-|\<newline>|1|2|''],
         isBot = True,
         agent = Some ''Legal Assistant'',
         timestamp = nowISO c1,
         isStreaming = True,
         hasArtifact = True,
         thinking = None,
         isError = False\<rparr>]
     \<and> table_parts ''|A|B|\<newline>|-|-|\<newline>|1|2|'' =
         Some \<lparr>headers = [''A'', ''B''], data = [[''1'', ''2'']]\<rparr>"
proof
  show "table_parts ''|A|B|\<newline>|-|-|\<newline>|1|2|'' =
         Some \<lparr>headers = [''A'', ''B''], data = [[''1'', ''2'']]\<rparr>"
  proof -
    have "nonblank_rows (trim ''|A|B|\<newline>|-|-|\<newline>|1|2|'') = [''|A|B|'', ''|-|-|'', ''|1|2|'']"
      by (simp add: eval_simps)
    then show ?thesis
      by (simp add: table_parts_def row_cells_def trim_def isWhiteSpace_def)
  qed
qed (rule three_fragments [OF assms])

theorem C2_streaming_merge_witness:
  "map msg_artifacts
     (messages
        (onmessage \<lparr>now = 3, nowISO = ''t3''\<rparr>
           (fragment_event ''|A|B|\<newline>|-|-|\<newline>|1|2|\<newline>'')
           (onmessage \<lparr>now = 2, nowISO = ''t2''\<rparr> (fragment_event ''able:\<newline>\<newline>'')
              (onmessage \<lparr>now = 1, nowISO = ''t1''\<rparr> (fragment_event ''Here is a t'')
                 \<lparr>messages = [], isLoading = True\<rparr>))))
   = [Some [table_artifact ''|A|B|\<newline>|-|-|\<newline>|1|2|'']]"
proof -
  have h: "\<not> (([]::message list) \<noteq> [] \<and> isBot (last []) \<and> isStreaming (last []))"
    by simp
  show ?thesis
    by (simp add: C2_streaming_merge [OF h, THEN conjunct1])
qed

text \<open>
  C3, as stated, fails twice on a table of three lines whose last line has an empty cell
  between two pipes: the second line is taken as the separator and is no body row, so
  there is one body row and not two; and the empty interior cell is dropped with the
  empty cells of the edges.
\<close>

theorem C3_counterexample:
  "table_parts ''|A|B|\<newline>|-|-|\<newline>|1||2|'' =
     Some \<lparr>headers = [''A'', ''B''], data = [[''1'', ''2'']]\<rparr>"
proof -
  have "nonblank_rows (trim ''|A|B|\<newline>|-|-|\<newline>|1||2|'') = [''|A|B|'', ''|-|-|'', ''|1||2|'']"
    by (simp add: eval_simps)
  then show ?thesis
    by (simp add: table_parts_def row_cells_def trim_def isWhiteSpace_def)
qed

text \<open>
  C3, amended. The formatter trims the content, splits it into lines and drops the blank
  lines. When fewer than two lines remain, or the first holds no pipe, or the second
  holds no hyphen, it returns the content as it came. Otherwise the first line is the
  header row, the second line is the separator and is not rendered, and every further
  line is a body row; a row is split on the pipe character, each cell is trimmed, and
  every cell that is empty after trimming is dropped, the interior ones included, so
  that each cell kept is non-empty and has no white space at either end.
\<close>

theorem C3_table_formatter:
  "(2 \<le> length (nonblank_rows (trim c))
      \<and> PIPE \<in> set (nonblank_rows (trim c) ! 0)
      \<and> CHR ''-'' \<in> set (nonblank_rows (trim c) ! 1)
    \<longrightarrow> table_parts c =
          Some \<lparr>headers = row_cells (nonblank_rows (trim c) ! 0),
                data = map row_cells (drop 2 (nonblank_rows (trim c)))\<rparr>
        \<and> parseMarkdownTable c =
          render_table \<lparr>headers = row_cells (nonblank_rows (trim c) ! 0),
                        data = map row_cells (drop 2 (nonblank_rows (trim c)))\<rparr>)
   \<and> (\<not> (2 \<le> length (nonblank_rows (trim c))
          \<and> PIPE \<in> set (nonblank_rows (trim c) ! 0)
          \<and> CHR ''-'' \<in> set (nonblank_rows (trim c) ! 1))
    \<longrightarrow> table_parts c = None \<and> parseMarkdownTable c = c)
   \<and> row_cells row = filter (\<lambda>cell. cell \<noteq> []) (map trim (js_split PIPE row))
   \<and> (\<forall>cell \<in> set (row_cells row).
         cell \<noteq> [] \<and> \<not> isWhiteSpace (hd cell) \<and> \<not> isWhiteSpace (last cell))"
proof (intro conjI impI ballI)
  assume "2 \<le> length (nonblank_rows (trim c))
      \<and> PIPE \<in> set (nonblank_rows (trim c) ! 0)
      \<and> CHR ''-'' \<in> set (nonblank_rows (trim c) ! 1)"
  then show "table_parts c =
          Some \<lparr>headers = row_cells (nonblank_rows (trim c) ! 0),
                data = map row_cells (drop 2 (nonblank_rows (trim c)))\<rparr>"
    by (simp add: table_parts_def Let_def)
  then show "parseMarkdownTable c =
          render_table \<lparr>headers = row_cells (nonblank_rows (trim c) ! 0),
                        data = map row_cells (drop 2 (nonblank_rows (trim c)))\<rparr>"
    by (simp add: parseMarkdownTable_def)
next
  assume "\<not> (2 \<le> length (nonblank_rows (trim c))
          \<and> PIPE \<in> set (nonblank_rows (trim c) ! 0)
          \<and> CHR ''-'' \<in> set (nonblank_rows (trim c) ! 1))"
  then show n: "table_parts c = None"
    by (auto simp: table_parts_def Let_def)
  then show "parseMarkdownTable c = c"
    by (simp add: parseMarkdownTable_def)
next
  show "row_cells row = filter (\<lambda>cell. cell \<noteq> []) (map trim (js_split PIPE row))"
    by (simp add: row_cells_def)
next
  fix cell assume "cell \<in> set (row_cells row)"
  then show "cell \<noteq> []" by (rule row_cells_nonempty)
next
  fix cell assume "cell \<in> set (row_cells row)"
  then show "\<not> isWhiteSpace (hd cell)" by (simp add: row_cells_trimmed)
next
  fix cell assume "cell \<in> set (row_cells row)"
  then show "\<not> isWhiteSpace (last cell)" by (simp add: row_cells_trimmed)
qed

theorem C3_table_formatter_witness:
  "table_parts ''|A|B|\<newline>|-|-|\<newline>|1||2|\<newline>|3|4|'' =
     Some \<lparr>headers = [''A'', ''B''], data = [[''1'', ''2''], [''3'', ''4'']]\<rparr>
   \<and> parseMarkdownTable ''no table'' = ''no table''"
proof -
  have r1: "nonblank_rows (trim ''|A|B|\<newline>|-|-|\<newline>|1||2|\<newline>|3|4|'') =
      [''|A|B|'', ''|-|-|'', ''|1||2|'', ''|3|4|'']"
    by (simp add: eval_simps)
  have r2: "nonblank_rows (trim ''no table'') = [''no table'']"
    by (simp add: eval_simps)
  have c: "row_cells ''|A|B|'' = [''A'', ''B'']" "row_cells ''|1||2|'' = [''1'', ''2'']"
    "row_cells ''|3|4|'' = [''3'', ''4'']"
    by (simp_all add: row_cells_def trim_def isWhiteSpace_def)
  have h1: "2 \<le> length (nonblank_rows (trim ''|A|B|\<newline>|-|-|\<newline>|1||2|\<newline>|3|4|''))
      \<and> PIPE \<in> set (nonblank_rows (trim ''|A|B|\<newline>|-|-|\<newline>|1||2|\<newline>|3|4|'') ! 0)
      \<and> CHR ''-'' \<in> set (nonblank_rows (trim ''|A|B|\<newline>|-|-|\<newline>|1||2|\<newline>|3|4|'') ! 1)"
    by (simp add: r1)
  have h2: "\<not> (2 \<le> length (nonblank_rows (trim ''no table''))
      \<and> PIPE \<in> set (nonblank_rows (trim ''no table'') ! 0)
      \<and> CHR ''-'' \<in> set (nonblank_rows (trim ''no table'') ! 1))"
    by (simp add: r2)
  from C3_table_formatter [of "''|A|B|\<newline>|-|-|\<newline>|1||2|\<newline>|3|4|''" "[]",
      THEN conjunct1, rule_format, OF h1, THEN conjunct1]
  have "table_parts ''|A|B|\<newline>|-|-|\<newline>|1||2|\<newline>|3|4|'' =
     Some \<lparr>headers = [''A'', ''B''], data = [[''1'', ''2''], [''3'', ''4'']]\<rparr>"
    by (simp only: r1 c nth_Cons_0 drop_Suc_Cons drop_0 list.map
        numeral_2_eq_2 nth_Cons_Suc One_nat_def)
  moreover
  from C3_table_formatter [of "''no table''" "[]",
      THEN conjunct2, THEN conjunct1, rule_format, OF h2, THEN conjunct2]
  have "parseMarkdownTable ''no table'' = ''no table''" .
  ultimately show ?thesis by (rule conjI)
qed

text \<open>
  C4, as stated, fails: the expression of the source has a sixth keyword, DOCUMENT. The
  text below, DOCUMENT followed by 200 letters, holds none of the five keywords of the
  claim at any position, and the document pass extracts it.
\<close>

theorem C4_counterexample:
  "map atype (artifacts (extractArtifacts (''DOCUMENT'' @ replicate 200 (CHR ''x'')))) = [Document]
   \<and> \<not> list_ex (keyword_occurs spec_doc_keywords (''DOCUMENT'' @ replicate 200 (CHR ''x'')))
         [0 ..< length (''DOCUMENT'' @ replicate 200 (CHR ''x''))]"
proof
  show "map atype (artifacts (extractArtifacts (''DOCUMENT'' @ replicate 200 (CHR ''x'')))) = [Document]"
    by (simp only: long_document_text extraction.simps list.map document_artifact_def
        artifact.simps)
next
  define X where "X = ''DOCUMENT'' @ replicate 200 (CHR ''x'')"
  have len: "length X = 208" by (simp add: X_def)
  have "\<not> keyword_occurs spec_doc_keywords X i" for i
  proof
    assume a: "keyword_occurs spec_doc_keywords X i"
    then obtain k where "k \<in> set spec_doc_keywords" and "i + length k + 200 \<le> length X"
      unfolding keyword_occurs_def list_ex_iff by blast
    then have "i \<le> 4" unfolding len by (auto simp: spec_doc_keywords_def)
    then consider "i = 0" | "i = 1" | "i = 2" | "i = 3" | "i = 4" by linarith
    then show False
    proof cases
      case 1
      with a show False
        by (simp add: keyword_occurs_def spec_doc_keywords_def canonicalize_def X_def)
    next
      case 2
      with a show False
        by (simp add: keyword_occurs_def spec_doc_keywords_def canonicalize_def X_def)
    next
      case 3
      with a show False
        by (simp add: keyword_occurs_def spec_doc_keywords_def canonicalize_def X_def)
    next
      case 4
      with a show False
        by (simp add: keyword_occurs_def spec_doc_keywords_def canonicalize_def X_def)
    next
      case 5
      with a show False
        by (simp add: keyword_occurs_def spec_doc_keywords_def canonicalize_def X_def)
    qed
  qed
  then have "\<not> list_ex (keyword_occurs spec_doc_keywords X) [0 ..< length X]"
    unfolding list_ex_iff by blast
  then show "\<not> list_ex (keyword_occurs spec_doc_keywords (''DOCUMENT'' @ replicate 200 (CHR ''x'')))
         [0 ..< length (''DOCUMENT'' @ replicate 200 (CHR ''x''))]"
    unfolding X_def .
qed

text \<open>
  C4, amended. For every input text, the document pass runs on the original text and
  produces a document artifact exactly when one of the six keywords CONTRACT, AGREEMENT,
  MEMO, POLICY, PROCEDURE, DOCUMENT stands somewhere in it, in either case, with at least
  200 more characters after it up to the end of the text; the artifact then holds the
  text from the first such position to the end, and it is the only document artifact
  of the call.
\<close>

theorem C4_document_pass:
  "((\<exists>a \<in> set (artifacts (extractArtifacts text)). atype a = Document)
      \<longleftrightarrow> (\<exists>i. keyword_occurs doc_keywords text i))
   \<and> (\<forall>i. keyword_occurs doc_keywords text i
            \<and> (\<forall>j<i. \<not> keyword_occurs doc_keywords text j)
          \<longrightarrow> filter (\<lambda>a. atype a = Document) (artifacts (extractArtifacts text)) =
                [document_artifact (drop i text)])
   \<and> length (filter (\<lambda>a. atype a = Document) (artifacts (extractArtifacts text))) \<le> 1"
proof (intro conjI allI impI)
  have "(\<exists>a \<in> set (artifacts (extractArtifacts text)). atype a = Document)
      \<longleftrightarrow> filter (\<lambda>a. atype a = Document) (artifacts (extractArtifacts text)) \<noteq> []"
    by (simp add: filter_empty_conv)
  also have "\<dots> \<longleftrightarrow> docRegex_exec 0 text \<noteq> None"
    by (simp add: document_artifacts split: option.splits)
  also have "\<dots> \<longleftrightarrow> (\<exists>i. keyword_occurs doc_keywords text i)"
    by (simp add: docRegex_exec_None_iff keyword_occurs_docRegex_at)
  finally show "(\<exists>a \<in> set (artifacts (extractArtifacts text)). atype a = Document)
      \<longleftrightarrow> (\<exists>i. keyword_occurs doc_keywords text i)" .
next
  fix i
  assume "keyword_occurs doc_keywords text i \<and> (\<forall>j<i. \<not> keyword_occurs doc_keywords text j)"
  then have "docRegex_exec 0 text = Some \<lparr>index = 0 + i, matched = drop i text\<rparr>"
    by (intro docRegex_exec_first) (simp_all add: keyword_occurs_docRegex_at)
  then show "filter (\<lambda>a. atype a = Document) (artifacts (extractArtifacts text)) =
      [document_artifact (drop i text)]"
    by (simp add: document_artifacts)
next
  show "length (filter (\<lambda>a. atype a = Document) (artifacts (extractArtifacts text))) \<le> 1"
    by (simp add: document_artifacts split: option.splits)
qed

theorem C4_document_pass_witness:
  "filter (\<lambda>a. atype a = Document)
     (artifacts (extractArtifacts (''xDOCUMENT'' @ replicate 200 (CHR ''x'')))) =
   [document_artifact (''DOCUMENT'' @ replicate 200 (CHR ''x''))]"
proof -
  let ?X = "''xDOCUMENT'' @ replicate 200 (CHR ''x'')"
  have h1: "keyword_occurs doc_keywords ?X 1"
    by (simp add: keyword_occurs_def doc_keywords_def canonicalize_def)
  have h0: "\<not> keyword_occurs doc_keywords ?X j" if "j < 1" for j
    using that
    by (simp add: keyword_occurs_def doc_keywords_def canonicalize_def)
  from h1 h0 have "keyword_occurs doc_keywords ?X 1
      \<and> (\<forall>j<1. \<not> keyword_occurs doc_keywords ?X j)" by blast
  from C4_document_pass [of ?X, THEN conjunct2, THEN conjunct1, rule_format, OF this]
  show ?thesis by simp
qed

text \<open>
  C5, as stated, fails: the content of the appended message is not the error text but
  the error text after the prefix \<^verbatim>\<open>Error: \<close>, as the template literal of the handler
  writes it.
\<close>

theorem C5_counterexample:
  "map msg_content
     (messages
        (onmessage \<lparr>now = 0, nowISO = ''''\<rparr>
           \<lparr>ev_content = None, ev_thinking = None, ev_agent = None, ev_timestamp = None,
            ev_done = False, ev_error = Some ''boom''\<rparr>
           \<lparr>messages = [], isLoading = True\<rparr>))
   = [''Error: boom'']"
  by (simp add: onmessage_def truthy_def error_message_def)

text \<open>
  C5, amended. On every error signal (an event that is not a done signal and carries a
  non-empty error text) the handler, which has no failing branch, appends one new
  message with \<open>isError\<close> and \<open>isBot\<close> set and with content equal to the error text
  prefixed by \<^verbatim>\<open>Error: \<close>; every message already in the list, the in-flight streaming
  message included, stays as it is.
\<close>

theorem C5_error_signal:
  assumes "\<not> ev_done ev" and "ev_error ev = Some err" and "err \<noteq> []"
  shows "messages (onmessage clk ev st) = messages st @ [error_message clk err]
         \<and> isError (error_message clk err)
         \<and> isBot (error_message clk err)
         \<and> msg_content (error_message clk err) = ''Error: '' @ err"
  using assms by (simp add: onmessage_def truthy_def error_message_def)

theorem C5_error_signal_witness:
  "messages
     (onmessage \<lparr>now = 7, nowISO = ''t''\<rparr>
        \<lparr>ev_content = None, ev_thinking = None, ev_agent = None, ev_timestamp = None,
         ev_done = False, ev_error = Some ''boom''\<rparr>
        \<lparr>messages = [], isLoading = True\<rparr>)
   = [error_message \<lparr>now = 7, nowISO = ''t''\<rparr> ''boom'']
   \<and> msg_content (error_message \<lparr>now = 7, nowISO = ''t''\<rparr> ''boom'') = ''Error: boom''"
  using C5_error_signal
    [of "\<lparr>ev_content = None, ev_thinking = None, ev_agent = None, ev_timestamp = None,
          ev_done = False, ev_error = Some ''boom''\<rparr>"
        "''boom''" "\<lparr>now = 7, nowISO = ''t''\<rparr>" "\<lparr>messages = [], isLoading = True\<rparr>"]
  by simp

text \<open>
  C6. The text of one fenced block with the tag js gives exactly one artifact, of type
  code, with language js and content \<^verbatim>\<open>const x=1;\<close>, and the remainder is the sentence
  for code.
\<close>

theorem C6_code_round_trip:
  "extractArtifacts ''```js\<newline>const x=1;\<newline>```'' =
     \<lparr>artifacts =
        [\<lparr>atype = Code, language = Some ''js'', content = ''const x=1;'',
          title = ''js Block''\<rparr>],
      conversationalContent = ''I've created the code for you.''\<rparr>"
  by (simp add: eval_simps)

text \<open>
  C7, as stated, fails. The extractor is a function of its text alone, so two calls on
  the same string agree; but the remainder need not be a fixed point. In the text below
  three placeholder lines stand between two letters; removing them leaves four line
  feeds in a row, after the step that collapses such runs. The remainder holds no fence,
  no pipe and no keyword, and extracting it again yields no artifact and a different
  remainder, with two line feeds.
\<close>

theorem C7_counterexample:
  "extractArtifacts ''a\<newline>[x]\<newline>[y]\<newline>[z]\<newline>b'' =
     \<lparr>artifacts = [], conversationalContent = ''a\<newline>\<newline>\<newline>\<newline>b''\<rparr>
   \<and> extractArtifacts ''a\<newline>\<newline>\<newline>\<newline>b'' =
     \<lparr>artifacts = [], conversationalContent = ''a\<newline>\<newline>b''\<rparr>"
  by (simp add: eval_simps)

text \<open>
  C7, amended. The extractor reads nothing but its text: each of its expressions is
  created in the call and scans from position 0, so two calls on the same string agree.
  For every string whose remainder triggers no pass when it is extracted again (the code
  expression finds no match in it, no match of the table expression holds two rows, the
  document expression finds no match), the second extraction yields no artifact and
  returns the cleaned remainder; and it returns the remainder unchanged, a fixed point,
  exactly when the remainder holds no run of three line feeds. A placeholder that stays
  in the remainder, as in \<^verbatim>\<open>See: [Table shown in artifact]done\<close>, does not prevent
  this: removing the placeholder lines a second time removes nothing.
\<close>

theorem C7_remainder_fixed_point:
  assumes "r = conversationalContent (extractArtifacts s)"
    and "codeBlockRegex_exec 0 r = None"
    and "\<forall>m \<in> set (table_matches 0 r). \<not> qualifies m"
    and "docRegex_exec 0 r = None"
  shows "(\<forall>s'. s' = s \<longrightarrow> extractArtifacts s' = extractArtifacts s)
       \<and> artifacts (extractArtifacts r) = []
       \<and> conversationalContent (extractArtifacts r) = cleanup r
       \<and> (extractArtifacts r = \<lparr>artifacts = [], conversationalContent = r\<rparr>
            \<longleftrightarrow> \<not> (\<exists>a b. r = a @ [NL, NL, NL] @ b))"
proof -
  have e: "extractArtifacts r = \<lparr>artifacts = [], conversationalContent = cleanup r\<rparr>"
    using assms(2-4) by (rule extract_no_triggers)
  have "cleanup r = r \<longleftrightarrow> \<not> (\<exists>a b. r = a @ [NL, NL, NL] @ b)"
    using assms(1) by (rule cleanup_remainder_iff)
  then have "extractArtifacts r = \<lparr>artifacts = [], conversationalContent = r\<rparr>
      \<longleftrightarrow> \<not> (\<exists>a b. r = a @ [NL, NL, NL] @ b)"
    unfolding e by simp
  moreover have "\<forall>s'. s' = s \<longrightarrow> extractArtifacts s' = extractArtifacts s" by simp
  moreover from e have "artifacts (extractArtifacts r) = []" by simp
  moreover from e have "conversationalContent (extractArtifacts r) = cleanup r" by simp
  ultimately show ?thesis by (intro conjI)
qed

theorem C7_remainder_fixed_point_witness:
  "extractArtifacts ''See: [Table shown in artifact]done'' =
     \<lparr>artifacts = [], conversationalContent = ''See: [Table shown in artifact]done''\<rparr>"
proof -
  have h1: "''See: [Table shown in artifact]done'' =
      conversationalContent (extractArtifacts ''See: |a|b|\<newline>|c|d|\<newline>done'')"
    by (simp add: eval_simps)
  have h2: "codeBlockRegex_exec 0 ''See: [Table shown in artifact]done'' = None"
    by (rule codeBlockRegex_exec_none) simp
  have "table_matches 0 ''See: [Table shown in artifact]done'' = []"
    by (rule table_matches_none) simp
  then have h3: "\<forall>m \<in> set (table_matches 0 ''See: [Table shown in artifact]done'').
      \<not> qualifies m"
    by simp
  have h4: "docRegex_exec 0 ''See: [Table shown in artifact]done'' = None"
    by (rule docRegex_exec_short) simp
  have h5: "\<not> (\<exists>a b. ''See: [Table shown in artifact]done'' = a @ [NL, NL, NL] @ b)"
  proof
    assume "\<exists>a b. ''See: [Table shown in artifact]done'' = a @ [NL, NL, NL] @ b"
    then obtain a b where "''See: [Table shown in artifact]done'' = a @ [NL, NL, NL] @ b"
      by blast
    then have "NL \<in> set ''See: [Table shown in artifact]done''"
      by (simp only: set_append) simp
    then show False by simp
  qed
  from C7_remainder_fixed_point [OF h1 h2 h3 h4,
      THEN conjunct2, THEN conjunct2, THEN conjunct2, THEN iffD2, OF h5]
  show ?thesis .
qed

text \<open>
  C8. For every keyword of the document expression (the five of the claim and DOCUMENT),
  a text made of the keyword and exactly 199 further characters gives no document
  artifact, and a text made of the keyword and exactly 200 further characters gives a
  document artifact, which holds the whole text.
\<close>

theorem C8_document_threshold:
  assumes "k \<in> set doc_keywords"
  shows "(length t = 199 \<longrightarrow>
            filter (\<lambda>a. atype a = Document) (artifacts (extractArtifacts (k @ t))) = [])
       \<and> (length t = 200 \<longrightarrow>
            filter (\<lambda>a. atype a = Document) (artifacts (extractArtifacts (k @ t))) =
              [document_artifact (k @ t)])"
  using assms
  by (simp add: document_artifacts docRegex_exec_keyword_199 docRegex_exec_keyword_200)

theorem C8_document_threshold_witness:
  "filter (\<lambda>a. atype a = Document)
     (artifacts (extractArtifacts (''MEMO'' @ replicate 199 (CHR ''x'')))) = []
   \<and> filter (\<lambda>a. atype a = Document)
     (artifacts (extractArtifacts (''MEMO'' @ replicate 200 (CHR ''x'')))) =
       [document_artifact (''MEMO'' @ replicate 200 (CHR ''x''))]"
proof -
  have k: "''MEMO'' \<in> set doc_keywords" by (simp add: doc_keywords_def)
  have l1: "length (replicate 199 (CHR ''x'')) = 199" by simp
  have l2: "length (replicate 200 (CHR ''x'')) = 200" by simp
  from C8_document_threshold [OF k, of "replicate 199 (CHR ''x'')", THEN conjunct1, rule_format, OF l1]
    C8_document_threshold [OF k, of "replicate 200 (CHR ''x'')", THEN conjunct2, rule_format, OF l2]
  show ?thesis by (rule conjI)
qed

text \<open>
  C9, as stated, fails in its second half: the text below has two consecutive lines that
  each hold a pipe, and no table artifact is extracted, because a row of the table
  expression starts at a pipe and needs a second pipe on the same line.
\<close>

theorem C9_counterexample:
  "js_split NL ''a|b\<newline>c|d\<newline>'' = [''a|b'', ''c|d'', '''']
   \<and> artifacts (extractArtifacts ''a|b\<newline>c|d\<newline>'') = []"
  by (simp add: eval_simps)

text \<open>
  C9, amended. A single line is never extracted as a table artifact: the content of every
  table artifact starts with a line that starts with a pipe, followed by a second line
  that starts with a pipe; and a text of a single line, with or without the line feed
  that ends it, gives no table artifact. A run of two or more consecutive lines, each
  starting with a pipe, holding a second pipe before any carriage return and ended by a
  line feed (a line ended by CR LF is such a line), is extracted wherever it stands:
  whatever text precedes and follows the run, some table artifact holds the trimmed run
  in its content. If moreover the text has no pipe before or after the run, exactly one
  table artifact is extracted, and its content is the trimmed run.
\<close>

theorem C9_table_minimum_size:
  "(\<forall>a \<in> set (artifacts (extractArtifacts s)).
      atype a = Table \<longrightarrow> (\<exists>l b. content a = PIPE # l @ NL # PIPE # b \<and> NL \<notin> set l))
   \<and> (NL \<notin> set s \<longrightarrow>
      filter (\<lambda>a. atype a = Table) (artifacts (extractArtifacts s)) = []
      \<and> filter (\<lambda>a. atype a = Table) (artifacts (extractArtifacts (s @ [NL]))) = [])
   \<and> ((\<forall>row \<in> set rows. table_line row) \<and> 2 \<le> length rows \<longrightarrow>
      (\<exists>a \<in> set (artifacts (extractArtifacts (pre @ lines_text rows @ post))).
         atype a = Table \<and> (\<exists>x y. content a = x @ trim (lines_text rows) @ y)))
   \<and> ((\<forall>row \<in> set rows. table_line row) \<and> 2 \<le> length rows
        \<and> PIPE \<notin> set pre \<and> PIPE \<notin> set post \<longrightarrow>
      filter (\<lambda>a. atype a = Table)
        (artifacts (extractArtifacts (pre @ lines_text rows @ post))) =
        [table_artifact (trim (lines_text rows))])"
proof (intro conjI impI ballI)
  fix a assume "a \<in> set (artifacts (extractArtifacts s))" and "atype a = Table"
  then show "\<exists>l b. content a = PIPE # l @ NL # PIPE # b \<and> NL \<notin> set l"
    by (rule table_artifact_two_lines)
next
  assume "NL \<notin> set s"
  then show "filter (\<lambda>a. atype a = Table) (artifacts (extractArtifacts s)) = []"
    by (simp add: table_artifacts one_line_no_table)
next
  assume "NL \<notin> set s"
  then show "filter (\<lambda>a. atype a = Table) (artifacts (extractArtifacts (s @ [NL]))) = []"
    by (simp add: table_artifacts one_line_no_table)
next
  assume a: "(\<forall>row \<in> set rows. table_line row) \<and> 2 \<le> length rows"
  then have "\<forall>row \<in> set rows. table_line row" and "2 \<le> length rows" by simp_all
  then show "\<exists>a \<in> set (artifacts (extractArtifacts (pre @ lines_text rows @ post))).
         atype a = Table \<and> (\<exists>x y. content a = x @ trim (lines_text rows) @ y)"
    by (rule run_extracted)
next
  assume a: "(\<forall>row \<in> set rows. table_line row) \<and> 2 \<le> length rows
        \<and> PIPE \<notin> set pre \<and> PIPE \<notin> set post"
  then have m: "table_matches 0 (pre @ lines_text rows @ post) =
      [\<lparr>index = length pre, matched = lines_text rows\<rparr>]"
    by (intro table_matches_lines) simp_all
  from a have q: "qualifies \<lparr>index = length pre, matched = lines_text rows\<rparr>"
    by (intro qualifies_lines) simp_all
  show "filter (\<lambda>a. atype a = Table)
        (artifacts (extractArtifacts (pre @ lines_text rows @ post))) =
        [table_artifact (trim (lines_text rows))]"
    by (simp add: table_artifacts m q)
qed

theorem C9_table_minimum_size_witness:
  "filter (\<lambda>a. atype a = Table) (artifacts (extractArtifacts ''|a|b|'')) = []
   \<and> filter (\<lambda>a. atype a = Table) (artifacts (extractArtifacts ''|a|b|\<newline>'')) = []
   \<and> (\<exists>a \<in> set (artifacts (extractArtifacts
         (''x|y\<newline>|a|b|'' @ CHR 13 # ''\<newline>|c|d|'' @ CHR 13 # ''\<newline>z|w''))).
         atype a = Table \<and> (\<exists>x y. content a = x @ (''|a|b|'' @ CHR 13 # ''\<newline>|c|d|'') @ y))
   \<and> filter (\<lambda>a. atype a = Table)
       (artifacts (extractArtifacts ''See: |a|b|\<newline>|c|d|\<newline>done'')) =
       [table_artifact ''|a|b|\<newline>|c|d|'']
   \<and> (\<exists>l b. ''|a|b|\<newline>|c|d|'' = PIPE # l @ NL # PIPE # b \<and> NL \<notin> set l)"
proof -
  have h1: "NL \<notin> set ''|a|b|''" by simp
  have l: "table_line ''|a|b|''" "table_line ''|c|d|''"
    by (simp_all add: table_line_def isLineTerminator_def)
  then have h2: "(\<forall>row \<in> set [''|a|b|'', ''|c|d|'']. table_line row)
      \<and> 2 \<le> length [''|a|b|'', ''|c|d|'']
      \<and> PIPE \<notin> set ''See: '' \<and> PIPE \<notin> set ''done''"
    by simp
  have t: "lines_text [''|a|b|'', ''|c|d|''] = ''|a|b|\<newline>|c|d|\<newline>''"
    by (simp add: lines_text_def)
  have r: "trim ''|a|b|\<newline>|c|d|\<newline>'' = ''|a|b|\<newline>|c|d|''"
    by (simp add: trim_def isWhiteSpace_def)
  have lc: "table_line (''|a|b|'' @ [CHR 13])" "table_line (''|c|d|'' @ [CHR 13])"
    by (simp_all add: table_line_def isLineTerminator_def)
  then have h3: "(\<forall>row \<in> set [''|a|b|'' @ [CHR 13], ''|c|d|'' @ [CHR 13]]. table_line row)
      \<and> 2 \<le> length [''|a|b|'' @ [CHR 13], ''|c|d|'' @ [CHR 13]]"
    by simp
  have tc: "lines_text [''|a|b|'' @ [CHR 13], ''|c|d|'' @ [CHR 13]] =
      ''|a|b|'' @ CHR 13 # ''\<newline>|c|d|'' @ CHR 13 # ''\<newline>''"
    by (simp add: lines_text_def)
  have rc: "trim (''|a|b|'' @ CHR 13 # ''\<newline>|c|d|'' @ CHR 13 # ''\<newline>'') =
      ''|a|b|'' @ CHR 13 # ''\<newline>|c|d|''"
    by (simp add: trim_def isWhiteSpace_def)
  from C9_table_minimum_size [of "''|a|b|''" "[]" "[]" "[]",
      THEN conjunct2, THEN conjunct1, rule_format, OF h1]
  have 1: "filter (\<lambda>a. atype a = Table) (artifacts (extractArtifacts ''|a|b|'')) = []
      \<and> filter (\<lambda>a. atype a = Table) (artifacts (extractArtifacts ''|a|b|\<newline>'')) = []"
    by simp
  from C9_table_minimum_size [of "[]" "[''|a|b|'' @ [CHR 13], ''|c|d|'' @ [CHR 13]]"
        "''x|y\<newline>''" "''z|w''",
      THEN conjunct2, THEN conjunct2, THEN conjunct1, rule_format, OF h3]
  have 2: "\<exists>a \<in> set (artifacts (extractArtifacts
         (''x|y\<newline>|a|b|'' @ CHR 13 # ''\<newline>|c|d|'' @ CHR 13 # ''\<newline>z|w''))).
         atype a = Table \<and> (\<exists>x y. content a = x @ (''|a|b|'' @ CHR 13 # ''\<newline>|c|d|'') @ y)"
    unfolding tc rc by simp
  from C9_table_minimum_size [of "[]" "[''|a|b|'', ''|c|d|'']" "''See: ''" "''done''",
      THEN conjunct2, THEN conjunct2, THEN conjunct2, rule_format, OF h2]
  have 3: "filter (\<lambda>a. atype a = Table)
       (artifacts (extractArtifacts ''See: |a|b|\<newline>|c|d|\<newline>done'')) =
       [table_artifact ''|a|b|\<newline>|c|d|'']"
    by (simp add: t r)
  then have "table_artifact ''|a|b|\<newline>|c|d|''
      \<in> set (filter (\<lambda>a. atype a = Table)
           (artifacts (extractArtifacts ''See: |a|b|\<newline>|c|d|\<newline>done'')))"
    by (simp only: list.set insertI1)
  then have m: "table_artifact ''|a|b|\<newline>|c|d|''
      \<in> set (artifacts (extractArtifacts ''See: |a|b|\<newline>|c|d|\<newline>done''))"
    and ty: "atype (table_artifact ''|a|b|\<newline>|c|d|'') = Table"
    by (simp_all only: set_filter mem_Collect_eq)
  from C9_table_minimum_size [of "''See: |a|b|\<newline>|c|d|\<newline>done''" "[]" "[]" "[]",
      THEN conjunct1, rule_format, OF m ty]
  have 4: "\<exists>l b. ''|a|b|\<newline>|c|d|'' = PIPE # l @ NL # PIPE # b \<and> NL \<notin> set l"
    by (simp only: table_artifact_def artifact.simps)
  from 1 2 3 4 show ?thesis by (intro conjI) (simp_all only: simp_thms)
qed

text \<open>
  C10. The extractor is a total function of the text: it has no failing branch, and its
  two loops are defined by recursion that ends, each visiting at most as many matches as
  the text has characters, so that it returns an extraction for every string. On the
  empty string it returns the empty artifact list and the empty remainder.
\<close>

theorem C10_empty_text:
  "extractArtifacts '''' = \<lparr>artifacts = [], conversationalContent = ''''\<rparr>
   \<and> length (code_matches 0 s) \<le> length s
   \<and> length (table_matches 0 s) \<le> length s
   \<and> (\<exists>as r. extractArtifacts s = \<lparr>artifacts = as, conversationalContent = r\<rparr>)"
proof (intro conjI)
  show "extractArtifacts '''' = \<lparr>artifacts = [], conversationalContent = ''''\<rparr>"
    by (simp add: eval_simps)
  show "length (code_matches 0 s) \<le> length s" by (simp add: code_matches_length_all)
  show "length (table_matches 0 s) \<le> length s" by (simp add: table_matches_length_all)
  show "\<exists>as r. extractArtifacts s = \<lparr>artifacts = as, conversationalContent = r\<rparr>"
    by (cases "extractArtifacts s") auto
qed

theorem C10_empty_text_witness:
  "length (code_matches 0 ''```x\<newline>y```'') \<le> 9
   \<and> length (table_matches 0 ''|a|b|\<newline>'') \<le> 6"
  using C10_empty_text [of "''```x\<newline>y```''"] C10_empty_text [of "''|a|b|\<newline>''"]
  by simp

end
